theory Spec2Isabelle
  imports Main
begin

section \<open>JavaScript values and outcomes\<close>

text \<open>
  The adapter (\<^verbatim>\<open>src/helpers/index.ts\<close>) works on untyped JavaScript values. A value is a
  primitive, a \<^verbatim>\<open>Date\<close>, an array, an object, a function, or an instance of one of the
  classes of the store client (\<^verbatim>\<open>Timestamp\<close>, \<^verbatim>\<open>DocumentReference\<close>, \<^verbatim>\<open>FieldValue\<close>).

  \<^item> An object is the list of its own enumerable properties, in enumeration order. The
    adapter's own classes (\<^verbatim>\<open>Ref\<close>, \<^verbatim>\<open>Doc\<close>, \<^verbatim>\<open>RichCollection\<close>) keep their state in
    own properties and are recognised by the code through the property \<^verbatim>\<open>type\<close>, never by
    \<^verbatim>\<open>instanceof\<close>; their instances are objects here.
  \<^item> Numbers are opaque to the adapter (no arithmetic is done on them) and are integers
    here. A \<^verbatim>\<open>Date\<close> and a \<^verbatim>\<open>Timestamp\<close> carry the instant in milliseconds, the
    precision of \<^verbatim>\<open>Date\<close>, so \<^verbatim>\<open>Timestamp.fromDate\<close> and \<^verbatim>\<open>toDate\<close> keep the number.
    \<open>InvalidDate\<close> is a \<^verbatim>\<open>Date\<close> whose time value is \<^verbatim>\<open>NaN\<close>, such as
    \<^verbatim>\<open>new Date('x')\<close>.
  \<^item> A function value is an opaque token; what calling it does is given separately.
  \<^item> Strings are lists of 8-bit characters.
\<close>

datatype jsval =
    Undefined
  | Null
  | Bool bool
  | Num int
  | Str string
  | Function nat
  | Date int
  | InvalidDate
  | Arr "jsval list"
  | Obj "(string \<times> jsval) list"
  | Timestamp int
  | DocumentReference string
  | FieldValueDelete
  | FieldValueIncrement jsval
  | FieldValueArrayUnion "jsval list"
  | FieldValueArrayRemove "jsval list"
  | FieldValueServerTimestamp

text \<open>
  A call either returns or throws. \<open>Error msg\<close> is \<^verbatim>\<open>new Error(msg)\<close> thrown by the
  adapter, \<open>TypeError\<close> the engine's error for reading a property of \<^verbatim>\<open>undefined\<close> or
  \<^verbatim>\<open>null\<close>, for writing one, for spreading a value that is not iterable and for calling
  what is not a function, \<open>RangeError\<close> the engine's error for a call stack that exceeds
  its limit, \<open>ClientError\<close> the error with which a constructor of the store client
  rejects its argument (its message is not modelled). \<open>Unmodelled\<close> marks the inputs
  whose outcome is decided by
  parts of the engine or of the store client that are outside this development (string
  conversion of numbers, dates and functions, properties inherited from prototypes, the
  internal fields of the client's classes): there the model says nothing.
\<close>

datatype error = Error string | TypeError | RangeError | ClientError | Unmodelled

type_synonym 'a result = "error + 'a"

definition and_then :: "'a result \<Rightarrow> ('a \<Rightarrow> 'b result) \<Rightarrow> 'b result" where
  "and_then r f = (case r of Inl e \<Rightarrow> Inl e | Inr x \<Rightarrow> f x)"

definition get_prop :: "(string \<times> jsval) list \<Rightarrow> string \<Rightarrow> jsval" where
  "get_prop kvs k = (case map_of kvs k of None \<Rightarrow> Undefined | Some v \<Rightarrow> v)"

text \<open>
  \<^verbatim>\<open>x[k]\<close> for a key \<open>k\<close>. It throws on \<^verbatim>\<open>undefined\<close> and \<^verbatim>\<open>null\<close>. On an object it
  is the own property, and \<^verbatim>\<open>undefined\<close> when there is none, unless the key names a member
  of \<^verbatim>\<open>Object.prototype\<close>.
\<close>

definition object_prototype_keys :: "string list" where
  "object_prototype_keys =
     [''constructor'', ''toString'', ''toLocaleString'', ''valueOf'', ''hasOwnProperty'',
      ''isPrototypeOf'', ''propertyIsEnumerable'', ''__proto__'', ''__defineGetter__'',
      ''__defineSetter__'', ''__lookupGetter__'', ''__lookupSetter__'']"

fun js_get :: "jsval \<Rightarrow> string \<Rightarrow> jsval result" where
  "js_get Undefined k = Inl TypeError"
| "js_get Null k = Inl TypeError"
| "js_get (Obj kvs) k =
     (case map_of kvs k of
        Some v \<Rightarrow> Inr v
      | None \<Rightarrow> if k \<in> set object_prototype_keys then Inl Unmodelled else Inr Undefined)"
| "js_get v k = Inl Unmodelled"

text \<open>
  \<^verbatim>\<open>xs.join(sep)\<close> on an array of strings and \<^verbatim>\<open>s.split(sep)\<close> at a character: the
  pieces of \<open>s\<close> between the separators, of which there is one more than there are
  separators in \<open>s\<close> (so the list of the pieces of the rest of the string is never empty).
\<close>

fun join_strings :: "string \<Rightarrow> string list \<Rightarrow> string" where
  "join_strings sep [] = []"
| "join_strings sep [x] = x"
| "join_strings sep (x # y # ys) = x @ sep @ join_strings sep (y # ys)"

fun split_string :: "char \<Rightarrow> string \<Rightarrow> string list" where
  "split_string sep [] = [[]]"
| "split_string sep (c # cs) =
     (if c = sep then [] # split_string sep cs
      else (case split_string sep cs of [] \<Rightarrow> [[c]] | piece # pieces \<Rightarrow> (c # piece) # pieces))"

section \<open>The store client\<close>

text \<open>
  The marshaller calls three constructors of the store client. Each of them checks its
  argument first and throws when it rejects it.

  \<^item> \<^verbatim>\<open>Timestamp.fromDate(date)\<close> takes the time value of the date in milliseconds and
    accepts it when its whole seconds, rounded down, lie between \<open>MIN_SECONDS\<close> and
    \<open>MAX_SECONDS\<close>, the first second of the year 1 and the last second of the year 9999.
    The time value of an invalid date is not a number and is rejected.
  \<^item> \<^verbatim>\<open>doc(documentPath)\<close> rejects the empty path and a path with two slashes in a row.
    It splits the path at its slashes and drops the empty segments (those before a leading
    and after a trailing slash); it rejects the path unless an even number of segments, and
    not none, is left. The \<^verbatim>\<open>path\<close> of the document pointer it returns is these segments
    joined by slashes.
  \<^item> \<^verbatim>\<open>FieldValue.arrayUnion(...elements)\<close> and \<^verbatim>\<open>FieldValue.arrayRemove(...elements)\<close>
    reject an empty list of arguments.
\<close>

definition MIN_SECONDS :: int where
  "MIN_SECONDS = - 62135596800"

definition MAX_SECONDS :: int where
  "MAX_SECONDS = 253402300799"

definition fromMillis :: "int \<Rightarrow> int result" where
  "fromMillis milliseconds =
     (if MIN_SECONDS \<le> milliseconds div 1000 \<and> milliseconds div 1000 \<le> MAX_SECONDS
      then Inr milliseconds else Inl ClientError)"

fun double_slash :: "string \<Rightarrow> bool" where
  "double_slash (a # b # cs) = ((a = CHR ''/'' \<and> b = CHR ''/'') \<or> double_slash (b # cs))"
| "double_slash cs = False"

definition resource_path :: "string \<Rightarrow> string result" where
  "resource_path documentPath =
     (if documentPath = [] \<or> double_slash documentPath then Inl ClientError
      else (let segments = filter (\<lambda>segment. segment \<noteq> []) (split_string (CHR ''/'') documentPath)
            in if 0 < length segments \<and> even (length segments)
               then Inr (join_strings ''/'' segments) else Inl ClientError))"

definition firestore_doc :: "string \<Rightarrow> jsval result" where
  "firestore_doc documentPath =
     (case resource_path documentPath of
        Inl e \<Rightarrow> Inl e
      | Inr p \<Rightarrow> Inr (DocumentReference p))"

section \<open>References and paths\<close>

text \<open>
  \<^verbatim>\<open>new RichCollection(path)\<close> has the one own property \<^verbatim>\<open>path\<close>; the constructor of
  \<^verbatim>\<open>Ref\<close> assigns \<^verbatim>\<open>type\<close>, \<^verbatim>\<open>collection\<close>, \<^verbatim>\<open>id\<close> and the constructor of \<^verbatim>\<open>Doc\<close>
  assigns \<^verbatim>\<open>type\<close>, \<^verbatim>\<open>collection\<close>, \<^verbatim>\<open>ref\<close>, \<^verbatim>\<open>data\<close>, \<^verbatim>\<open>environment\<close>, in this order.
\<close>

definition RichCollection :: "string \<Rightarrow> jsval" where
  "RichCollection path = Obj [(''path'', Str path)]"

definition Ref :: "string \<Rightarrow> string \<Rightarrow> jsval" where
  "Ref path i =
     Obj [(''type'', Str ''ref''), (''collection'', RichCollection path), (''id'', Str i)]"

definition Doc :: "string \<Rightarrow> string \<Rightarrow> jsval \<Rightarrow> jsval" where
  "Doc path i d =
     Obj [(''type'', Str ''doc''), (''collection'', RichCollection path), (''ref'', Ref path i),
          (''data'', d), (''environment'', Str ''server'')]"

text \<open>
  \<^verbatim>\<open>path.match(/^(.+)\/(.+)$/)\<close>. The dot matches every character but a line terminator.
  The first group is greedy: it takes the longest run of such characters from the start
  and gives characters back one at a time until the rest is a slash followed by one or
  more such characters up to the end of the input; it keeps at least one character.
  Of the four line terminators of the language, line feed and carriage return are
  characters of the model; U+2028 and U+2029 lie outside its 8-bit characters.
\<close>

definition line_terminator :: "char \<Rightarrow> bool" where
  "line_terminator c \<longleftrightarrow> c = CHR 0x0A \<or> c = CHR 0x0D"

definition rest_matches :: "string \<Rightarrow> bool" where
  "rest_matches r =
     (case r of
        [] \<Rightarrow> False
      | c # i \<Rightarrow> c = CHR ''/'' \<and> i \<noteq> [] \<and> list_all (\<lambda>c. \<not> line_terminator c) i)"

fun backtrack :: "nat \<Rightarrow> string \<Rightarrow> (string \<times> string) option" where
  "backtrack 0 s = None"
| "backtrack (Suc k) s =
     (if rest_matches (drop (Suc k) s) then Some (take (Suc k) s, drop (Suc (Suc k)) s)
      else backtrack k s)"

definition match_path :: "string \<Rightarrow> (string \<times> string) option" where
  "match_path s = backtrack (length (takeWhile (\<lambda>c. \<not> line_terminator c) s)) s"

definition pathToRef :: "string \<Rightarrow> jsval result" where
  "pathToRef path =
     (case match_path path of
        None \<Rightarrow> Inl (Error (''Can't parse path '' @ path))
      | Some (collectionPath, i) \<Rightarrow> Inr (Ref collectionPath i))"

section \<open>The marshaller\<close>

text \<open>
  \<^verbatim>\<open>getRefPath\<close> is \<^verbatim>\<open>[ref.collection.path].concat(ref.id).join('/')\<close>. \<^verbatim>\<open>concat\<close> appends
  the elements of an array argument and any other argument as it is; \<^verbatim>\<open>join\<close> writes
  \<^verbatim>\<open>undefined\<close> and \<^verbatim>\<open>null\<close> as the empty string and a string as it is.
  \<^verbatim>\<open>refToFirestoreDocument\<close> hands the path to the store client's \<^verbatim>\<open>doc\<close>, which builds
  the document pointer or rejects the path.
\<close>

fun join_piece :: "jsval \<Rightarrow> string result" where
  "join_piece Undefined = Inr []"
| "join_piece Null = Inr []"
| "join_piece (Str s) = Inr s"
| "join_piece v = Inl Unmodelled"

fun join :: "string \<Rightarrow> jsval list \<Rightarrow> string result" where
  "join sep [] = Inr []"
| "join sep [x] = join_piece x"
| "join sep (x # y # ys) =
     and_then (join_piece x) (\<lambda>s. and_then (join sep (y # ys)) (\<lambda>r. Inr (s @ sep @ r)))"

definition concat_arg :: "jsval list \<Rightarrow> jsval \<Rightarrow> jsval list" where
  "concat_arg xs v = (case v of Arr ys \<Rightarrow> xs @ ys | _ \<Rightarrow> xs @ [v])"

definition getRefPath :: "jsval \<Rightarrow> string result" where
  "getRefPath r =
     and_then (js_get r ''collection'') (\<lambda>c.
     and_then (js_get c ''path'') (\<lambda>p.
     and_then (js_get r ''id'') (\<lambda>i. join ''/'' (concat_arg [p] i))))"

definition refToFirestoreDocument :: "jsval \<Rightarrow> jsval result" where
  "refToFirestoreDocument r = and_then (getRefPath r) firestore_doc"

text \<open>
  The spread \<^verbatim>\<open>...x\<close> of an argument list: the elements of an array, the characters of a
  string, and a \<^verbatim>\<open>TypeError\<close> for every other value of the model, none of which is
  iterable.
\<close>

fun spread :: "jsval \<Rightarrow> jsval list result" where
  "spread (Arr xs) = Inr xs"
| "spread (Str s) = Inr (map (\<lambda>c. Str [c]) s)"
| "spread v = Inl TypeError"

lemma size_get_prop:
  "size (get_prop kvs k) \<le> size_list (size_prod (\<lambda>x. 0) size) kvs"
  by (induction kvs) (auto simp: get_prop_def)

text \<open>
  \<^verbatim>\<open>unwrapData\<close>. The object branch is taken by every value that is truthy and of type
  \<^verbatim>\<open>'object'\<close>: objects, arrays, dates and the client's instances. Only an object has a
  property \<^verbatim>\<open>type\<close>. A field-value object whose \<^verbatim>\<open>kind\<close> matches no case of the switch
  leaves the switch and is copied like any other object. The constructors of the client
  (\<^verbatim>\<open>doc\<close>, \<^verbatim>\<open>FieldValue.arrayUnion\<close>, \<^verbatim>\<open>FieldValue.arrayRemove\<close>, \<^verbatim>\<open>Timestamp.fromDate\<close>)
  throw when they reject their argument. The copy
  (\<^verbatim>\<open>Object.assign\<close> into a new array or object, then one assignment per key) keeps the
  keys and their order and replaces each member by its conversion, left to right; the first
  member that throws ends the call. A client instance would be copied field by internal
  field, which is outside the model.
\<close>

function (sequential) unwrapData :: "jsval \<Rightarrow> jsval result"
  and unwrapItems :: "jsval list \<Rightarrow> jsval list result"
  and unwrapProps :: "(string \<times> jsval) list \<Rightarrow> (string \<times> jsval) list result"
where
  "unwrapData (Obj kvs) =
     (if get_prop kvs ''type'' = Str ''ref'' then refToFirestoreDocument (Obj kvs)
      else if get_prop kvs ''type'' = Str ''value'' then
        (if get_prop kvs ''kind'' = Str ''remove'' then Inr FieldValueDelete
         else if get_prop kvs ''kind'' = Str ''increment''
           then Inr (FieldValueIncrement (get_prop kvs ''number''))
         else if get_prop kvs ''kind'' = Str ''arrayUnion''
           then (case unwrapData (get_prop kvs ''values'') of
                   Inl e \<Rightarrow> Inl e
                 | Inr w \<Rightarrow>
                     and_then (spread w) (\<lambda>ws.
                       if ws = [] then Inl ClientError else Inr (FieldValueArrayUnion ws)))
         else if get_prop kvs ''kind'' = Str ''arrayRemove''
           then (case unwrapData (get_prop kvs ''values'') of
                   Inl e \<Rightarrow> Inl e
                 | Inr w \<Rightarrow>
                     and_then (spread w) (\<lambda>ws.
                       if ws = [] then Inl ClientError else Inr (FieldValueArrayRemove ws)))
         else if get_prop kvs ''kind'' = Str ''serverDate'' then Inr FieldValueServerTimestamp
         else (case unwrapProps kvs of Inl e \<Rightarrow> Inl e | Inr kvs' \<Rightarrow> Inr (Obj kvs')))
      else (case unwrapProps kvs of Inl e \<Rightarrow> Inl e | Inr kvs' \<Rightarrow> Inr (Obj kvs')))"
| "unwrapData (Date t) =
     (case fromMillis t of Inl e \<Rightarrow> Inl e | Inr milliseconds \<Rightarrow> Inr (Timestamp milliseconds))"
| "unwrapData InvalidDate = Inl ClientError"
| "unwrapData (Arr xs) = (case unwrapItems xs of Inl e \<Rightarrow> Inl e | Inr ys \<Rightarrow> Inr (Arr ys))"
| "unwrapData (Timestamp t) = Inl Unmodelled"
| "unwrapData (DocumentReference p) = Inl Unmodelled"
| "unwrapData FieldValueDelete = Inl Unmodelled"
| "unwrapData (FieldValueIncrement n) = Inl Unmodelled"
| "unwrapData (FieldValueArrayUnion vs) = Inl Unmodelled"
| "unwrapData (FieldValueArrayRemove vs) = Inl Unmodelled"
| "unwrapData FieldValueServerTimestamp = Inl Unmodelled"
| "unwrapData Undefined = Inr Null"
| "unwrapData Null = Inr Null"
| "unwrapData (Bool b) = Inr (Bool b)"
| "unwrapData (Num n) = Inr (Num n)"
| "unwrapData (Str s) = Inr (Str s)"
| "unwrapData (Function f) = Inr (Function f)"
| "unwrapItems [] = Inr []"
| "unwrapItems (x # xs) =
     (case unwrapData x of
        Inl e \<Rightarrow> Inl e
      | Inr y \<Rightarrow> (case unwrapItems xs of Inl e \<Rightarrow> Inl e | Inr ys \<Rightarrow> Inr (y # ys)))"
| "unwrapProps [] = Inr []"
| "unwrapProps ((k, v) # kvs) =
     (case unwrapData v of
        Inl e \<Rightarrow> Inl e
      | Inr w \<Rightarrow> (case unwrapProps kvs of Inl e \<Rightarrow> Inl e | Inr kvs' \<Rightarrow> Inr ((k, w) # kvs')))"
  by pat_completeness auto
termination
  by (relation "measure (case_sum size
        (case_sum (size_list size) (size_list (size_prod (\<lambda>x. 0) size))))")
     (simp_all add: less_Suc_eq_le size_get_prop)

text \<open>
  \<^verbatim>\<open>wrapData\<close>. A document pointer is parsed back from its path and a timestamp becomes a
  date. Every other truthy value of type \<^verbatim>\<open>'object'\<close> is copied member by member; a
  \<^verbatim>\<open>Date\<close> has no own enumerable property, so its copy is the empty object.
\<close>

fun wrapData :: "jsval \<Rightarrow> jsval result"
  and wrapItems :: "jsval list \<Rightarrow> jsval list result"
  and wrapProps :: "(string \<times> jsval) list \<Rightarrow> (string \<times> jsval) list result"
where
  "wrapData (DocumentReference p) = pathToRef p"
| "wrapData (Timestamp t) = Inr (Date t)"
| "wrapData (Arr xs) = (case wrapItems xs of Inl e \<Rightarrow> Inl e | Inr ys \<Rightarrow> Inr (Arr ys))"
| "wrapData (Obj kvs) = (case wrapProps kvs of Inl e \<Rightarrow> Inl e | Inr kvs' \<Rightarrow> Inr (Obj kvs'))"
| "wrapData (Date t) = Inr (Obj [])"
| "wrapData InvalidDate = Inr (Obj [])"
| "wrapData FieldValueDelete = Inl Unmodelled"
| "wrapData (FieldValueIncrement n) = Inl Unmodelled"
| "wrapData (FieldValueArrayUnion vs) = Inl Unmodelled"
| "wrapData (FieldValueArrayRemove vs) = Inl Unmodelled"
| "wrapData FieldValueServerTimestamp = Inl Unmodelled"
| "wrapData Undefined = Inr Undefined"
| "wrapData Null = Inr Null"
| "wrapData (Bool b) = Inr (Bool b)"
| "wrapData (Num n) = Inr (Num n)"
| "wrapData (Str s) = Inr (Str s)"
| "wrapData (Function f) = Inr (Function f)"
| "wrapItems [] = Inr []"
| "wrapItems (x # xs) =
     (case wrapData x of
        Inl e \<Rightarrow> Inl e
      | Inr y \<Rightarrow> (case wrapItems xs of Inl e \<Rightarrow> Inl e | Inr ys \<Rightarrow> Inr (y # ys)))"
| "wrapProps [] = Inr []"
| "wrapProps ((k, v) # kvs) =
     (case wrapData v of
        Inl e \<Rightarrow> Inl e
      | Inr w \<Rightarrow> (case wrapProps kvs of Inl e \<Rightarrow> Inl e | Inr kvs' \<Rightarrow> Inr ((k, w) # kvs')))"

section \<open>The collection handle\<close>

text \<open>
  The store is reached through the client only. Each call of a primitive of the client is
  recorded with its arguments, in the order of the calls; an operation returns the calls
  it made and either its result or the error it threw. \<^verbatim>\<open>firebaseDoc(id)\<close> is the document
  at \<^verbatim>\<open>`${this.path}/${id}`\<close> and \<^verbatim>\<open>firebaseCollection()\<close> the collection at
  \<^verbatim>\<open>this.path\<close>. The handle is used with the path of a collection and the ids of
  documents: the path that it gives to the client is recorded as it is, and the client's
  check of it (\<open>resource_path\<close>) is not repeated here. What the store answers to a write is
  not part of the model.
\<close>

datatype store_call =
    CollectionAdd string jsval
  | DocSet string jsval
  | DocSetMerge string jsval
  | DocUpdate string jsval
  | DocDelete string
  | GetAll "string list"

type_synonym 'a outcome = "store_call list \<times> 'a result"

definition firebaseDoc :: "string \<Rightarrow> string \<Rightarrow> string" where
  "firebaseDoc path i = path @ ''/'' @ i"

subsection \<open>Writes\<close>

text \<open>
  \<^verbatim>\<open>writeHelpers()\<close>: the constructors of the field-value objects. \<^verbatim>\<open>[].concat(values)\<close>
  is the array itself for an array and the one-element array for any other value.
\<close>

record write_helpers =
  serverDate :: jsval
  remove :: jsval
  increment :: "jsval \<Rightarrow> jsval"
  arrayUnion :: "jsval \<Rightarrow> jsval"
  arrayRemove :: "jsval \<Rightarrow> jsval"

definition writeHelpers :: write_helpers where
  "writeHelpers =
     \<lparr> serverDate = Obj [(''type'', Str ''value''), (''kind'', Str ''serverDate'')],
       remove = Obj [(''type'', Str ''value''), (''kind'', Str ''remove'')],
       increment = (\<lambda>number.
         Obj [(''type'', Str ''value''), (''kind'', Str ''increment''), (''number'', number)]),
       arrayUnion = (\<lambda>values.
         Obj [(''type'', Str ''value''), (''kind'', Str ''arrayUnion''),
              (''values'', Arr (concat_arg [] values))]),
       arrayRemove = (\<lambda>values.
         Obj [(''type'', Str ''value''), (''kind'', Str ''arrayRemove''),
              (''values'', Arr (concat_arg [] values))]) \<rparr>"

text \<open>
  A write argument (\<^verbatim>\<open>WriteModelArg\<close>) is a value that is not a function, or a function
  from the write helpers to such a value. The function is the function object \<open>Function f\<close>
  together with what a call of it returns or throws.
\<close>

datatype write_arg =
    WriteData jsval
  | WriteGetter nat "write_helpers \<Rightarrow> jsval result"

fun arg_value :: "write_arg \<Rightarrow> jsval" where
  "arg_value (WriteData d) = d"
| "arg_value (WriteGetter f g) = Function f"

text \<open>\<^verbatim>\<open>typeof getData === 'function' ? getData(this.writeHelpers()) : getData\<close>\<close>

fun resolve_write :: "write_arg \<Rightarrow> jsval result" where
  "resolve_write (WriteData d) = Inr d"
| "resolve_write (WriteGetter f g) = g writeHelpers"

definition add :: "string \<Rightarrow> write_arg \<Rightarrow> unit outcome" where
  "add path getData =
     (case and_then (resolve_write getData) unwrapData of
        Inl e \<Rightarrow> ([], Inl e)
      | Inr w \<Rightarrow> ([CollectionAdd path w], Inr ()))"

definition set_doc :: "string \<Rightarrow> string \<Rightarrow> write_arg \<Rightarrow> unit outcome" where
  "set_doc path i data =
     (case unwrapData (arg_value data) of
        Inl e \<Rightarrow> ([], Inl e)
      | Inr w \<Rightarrow> ([DocSet (firebaseDoc path i) w], Inr ()))"

definition upset :: "string \<Rightarrow> string \<Rightarrow> write_arg \<Rightarrow> unit outcome" where
  "upset path i data =
     (case and_then (resolve_write data) unwrapData of
        Inl e \<Rightarrow> ([], Inl e)
      | Inr w \<Rightarrow> ([DocSetMerge (firebaseDoc path i) w], Inr ()))"

text \<open>
  An update argument (\<^verbatim>\<open>UpdateModelArg\<close>) is a value that is neither a function nor an
  array, a function, or an array of field edits. An entry of the array is a field edit
  \<^verbatim>\<open>{key, value}\<close>, whose key is a string or an array of strings, or a falsy value
  (\<^verbatim>\<open>undefined\<close>, \<^verbatim>\<open>null\<close>, \<^verbatim>\<open>false\<close>, \<^verbatim>\<open>0\<close>, \<^verbatim>\<open>''\<close>), here \<open>None\<close>: the code
  tests an entry with \<^verbatim>\<open>!field\<close> only.
\<close>

datatype update_key = Key string | KeyPath "string list"

datatype update_field = UpdateField update_key jsval

datatype update_arg =
    UpdateData jsval
  | UpdateGetter nat
  | UpdateFields "update_field option list"

fun field_name :: "update_key \<Rightarrow> string" where
  "field_name (Key k) = k"
| "field_name (KeyPath ks) = join_strings ''.'' ks"

text \<open>
  \<^verbatim>\<open>acc[name] = value\<close>: a \<^verbatim>\<open>TypeError\<close> when \<open>acc\<close> is \<^verbatim>\<open>undefined\<close> or \<^verbatim>\<open>null\<close>. On an
  object, a property that the object has is overwritten in place. A new property is
  enumerated after the others, unless its key is an array index, the decimal numeral
  without leading zero of a number up to \<open>2\<^sup>3\<^sup>2 - 2\<close>: an object enumerates its array
  indices first, in ascending order, and its other keys after them in the order of their
  creation.
\<close>

fun decimal :: "int \<Rightarrow> string \<Rightarrow> int option" where
  "decimal n [] = Some n"
| "decimal n (c # cs) =
     (if 48 \<le> (of_char c :: int) \<and> (of_char c :: int) \<le> 57
      then decimal (10 * n + (of_char c - 48)) cs else None)"

definition array_index :: "string \<Rightarrow> int option" where
  "array_index k =
     (if k = [] \<or> (hd k = CHR ''0'' \<and> tl k \<noteq> []) then None
      else (case decimal 0 k of
              Some n \<Rightarrow> if n \<le> 4294967294 then Some n else None
            | None \<Rightarrow> None))"

fun overwrite :: "(string \<times> jsval) list \<Rightarrow> string \<Rightarrow> jsval \<Rightarrow> (string \<times> jsval) list" where
  "overwrite [] k v = []"
| "overwrite ((k', v') # kvs) k v =
     (if k' = k then (k, v) # kvs else (k', v') # overwrite kvs k v)"

fun add_index :: "int \<Rightarrow> string \<Rightarrow> jsval \<Rightarrow> (string \<times> jsval) list \<Rightarrow> (string \<times> jsval) list"
where
  "add_index n k v [] = [(k, v)]"
| "add_index n k v ((k', v') # kvs) =
     (case array_index k' of
        Some m \<Rightarrow> if m < n then (k', v') # add_index n k v kvs else (k, v) # (k', v') # kvs
      | None \<Rightarrow> (k, v) # (k', v') # kvs)"

definition assign :: "(string \<times> jsval) list \<Rightarrow> string \<Rightarrow> jsval \<Rightarrow> (string \<times> jsval) list" where
  "assign kvs k v =
     (if map_of kvs k \<noteq> None then overwrite kvs k v
      else (case array_index k of
              Some n \<Rightarrow> add_index n k v kvs
            | None \<Rightarrow> kvs @ [(k, v)]))"

fun js_set :: "jsval \<Rightarrow> string \<Rightarrow> jsval \<Rightarrow> jsval result" where
  "js_set Undefined k v = Inl TypeError"
| "js_set Null k v = Inl TypeError"
| "js_set (Obj kvs) k v = Inr (Obj (assign kvs k v))"
| "js_set x k v = Inl Unmodelled"

text \<open>
  The callback of \<^verbatim>\<open>updateData.reduce\<close>. On a falsy entry it returns without a value, so
  the accumulator of the next round is \<^verbatim>\<open>undefined\<close>; otherwise it assigns the field to
  the accumulator and returns the accumulator.
\<close>

fun reduce_step :: "jsval \<Rightarrow> update_field option \<Rightarrow> jsval result" where
  "reduce_step acc None = Inr Undefined"
| "reduce_step acc (Some (UpdateField k v)) = js_set acc (field_name k) v"

fun reduce :: "jsval \<Rightarrow> update_field option list \<Rightarrow> jsval result" where
  "reduce acc [] = Inr acc"
| "reduce acc (f # fs) =
     (case reduce_step acc f of Inl e \<Rightarrow> Inl e | Inr acc' \<Rightarrow> reduce acc' fs)"

text \<open>
  \<^verbatim>\<open>update\<close>. The class has no method \<^verbatim>\<open>updateHelpers\<close>, so the call
  \<^verbatim>\<open>this.updateHelpers()\<close> made for a function argument throws a \<^verbatim>\<open>TypeError\<close>.
\<close>

fun resolve_update :: "update_arg \<Rightarrow> jsval result" where
  "resolve_update (UpdateData d) = Inr d"
| "resolve_update (UpdateGetter f) = Inl TypeError"
| "resolve_update (UpdateFields fs) = reduce (Obj []) fs"

definition update :: "string \<Rightarrow> string \<Rightarrow> update_arg \<Rightarrow> unit outcome" where
  "update path i data =
     (case and_then (resolve_update data) unwrapData of
        Inl e \<Rightarrow> ([], Inl e)
      | Inr w \<Rightarrow> ([DocUpdate (firebaseDoc path i) w], Inr ()))"

definition remove_doc :: "string \<Rightarrow> string \<Rightarrow> unit outcome" where
  "remove_doc path i = ([DocDelete (firebaseDoc path i)], Inr ())"

subsection \<open>Batch reads\<close>

text \<open>
  The store maps the path of a document to its data. \<^verbatim>\<open>getAll\<close> answers with one snapshot
  per requested document, in the order of the request; the snapshot of the document
  requested under \<open>i\<close> has the id \<open>i\<close> (ids are document ids, single path segments), and
  \<^verbatim>\<open>exists\<close> is false, and \<^verbatim>\<open>data()\<close> is \<^verbatim>\<open>undefined\<close>, when the store has no such document.
\<close>

type_synonym store = "string \<Rightarrow> jsval option"

datatype snapshot = Snapshot string "jsval option"

definition getAll :: "store \<Rightarrow> string \<Rightarrow> string list \<Rightarrow> snapshot list" where
  "getAll db path ids = map (\<lambda>i. Snapshot i (db (firebaseDoc path i))) ids"

text \<open>
  \<^verbatim>\<open>options?.onMissing\<close>: absent, \<^verbatim>\<open>'ignore'\<close>, or a callback from the id to a value (that
  may throw).
\<close>

datatype on_missing = Ignore | OnMissing "string \<Rightarrow> jsval result"

definition defaultOnMissing :: "string \<Rightarrow> jsval result" where
  "defaultOnMissing i = Inl (Error (''Missing document with id '' @ i))"

fun falsy :: "jsval \<Rightarrow> bool" where
  "falsy Undefined = True"
| "falsy Null = True"
| "falsy (Bool b) = (\<not> b)"
| "falsy (Num n) = (n = 0)"
| "falsy (Str s) = (s = [])"
| "falsy v = False"

text \<open>\<^verbatim>\<open>firestoreData && wrapData(firestoreData)\<close>\<close>

definition decode_data :: "jsval \<Rightarrow> jsval result" where
  "decode_data firestoreData =
     (if falsy firestoreData then Inr firestoreData else wrapData firestoreData)"

text \<open>The callback of \<^verbatim>\<open>firestoreSnaps.map\<close>: \<^verbatim>\<open>null\<close> or a \<^verbatim>\<open>Doc\<close>.\<close>

fun snap_doc :: "string \<Rightarrow> on_missing option \<Rightarrow> snapshot \<Rightarrow> jsval result" where
  "snap_doc path opt (Snapshot i None) =
     (case opt of
        Some Ignore \<Rightarrow> Inr Null
      | Some (OnMissing f) \<Rightarrow> and_then (f i) (\<lambda>d. Inr (Doc path i d))
      | None \<Rightarrow> and_then (defaultOnMissing i) (\<lambda>d. Inr (Doc path i d)))"
| "snap_doc path opt (Snapshot i (Some firestoreData)) =
     and_then (decode_data firestoreData) (\<lambda>d. Inr (Doc path i d))"

fun map_result :: "('a \<Rightarrow> 'b result) \<Rightarrow> 'a list \<Rightarrow> 'b list result" where
  "map_result f [] = Inr []"
| "map_result f (x # xs) =
     (case f x of
        Inl e \<Rightarrow> Inl e
      | Inr y \<Rightarrow> (case map_result f xs of Inl e \<Rightarrow> Inl e | Inr ys \<Rightarrow> Inr (y # ys)))"

text \<open>\<^verbatim>\<open>doc != null\<close> is false for \<^verbatim>\<open>null\<close> and \<^verbatim>\<open>undefined\<close> only.\<close>

definition not_nullish :: "jsval \<Rightarrow> bool" where
  "not_nullish v \<longleftrightarrow> v \<noteq> Null \<and> v \<noteq> Undefined"

definition getMany :: "store \<Rightarrow> string \<Rightarrow> string list \<Rightarrow> on_missing option \<Rightarrow> jsval list outcome" where
  "getMany db path ids opt =
     (if length ids = 0 then ([], Inr [])
      else ([GetAll (map (firebaseDoc path) ids)],
            and_then (map_result (snap_doc path opt) (getAll db path ids))
              (\<lambda>docs. Inr (filter not_nullish docs))))"

section \<open>The query builder\<close>

text \<open>
  A field of a directive is a string, an array of strings, or the sentinel \<^verbatim>\<open>docId\<close> (the one
  instance of the class \<^verbatim>\<open>DocId\<close>). A cursor is \<^verbatim>\<open>{type, position, value}\<close>. A directive
  is one of \<^verbatim>\<open>order\<close> (field, method, and the cursors, which may be absent), \<^verbatim>\<open>where\<close>
  (field, filter, value) and \<^verbatim>\<open>limit\<close> (number).
\<close>

datatype query_field = Field string | FieldPath "string list" | DocId

datatype cursor_position = StartAt | StartAfter | EndAt | EndBefore

datatype cursor =
  Cursor (cursor_type: string) (cursor_position: cursor_position) (cursor_value: jsval)

datatype query =
    Order query_field string "cursor list option"
  | Where query_field string jsval
  | Limit jsval

text \<open>The cursor constructors of \<^verbatim>\<open>queryHelpers()\<close>.\<close>

definition startAt :: "jsval \<Rightarrow> cursor" where
  "startAt v = Cursor ''cursor'' StartAt v"

definition startAfter :: "jsval \<Rightarrow> cursor" where
  "startAfter v = Cursor ''cursor'' StartAfter v"

definition endAt :: "jsval \<Rightarrow> cursor" where
  "endAt v = Cursor ''cursor'' EndAt v"

definition endBefore :: "jsval \<Rightarrow> cursor" where
  "endBefore v = Cursor ''cursor'' EndBefore v"

text \<open>
  The accumulator \<^verbatim>\<open>firestoreQuery\<close> starts as the collection, and each method of the client
  called on it gives the next accumulator: it is the list of these calls, in order. The
  field of \<^verbatim>\<open>orderBy\<close> and \<^verbatim>\<open>where\<close> is a field name or the client's selector of the
  document id, \<^verbatim>\<open>FieldPath.documentId()\<close>.
\<close>

datatype field_selector = DocumentId | FieldName string

datatype query_call =
    OrderBy field_selector string
  | WhereFilter field_selector string jsval
  | LimitTo jsval
  | CursorAt cursor_position "jsval list"

text \<open>
  \<^verbatim>\<open>field instanceof DocId ? FieldPath.documentId() : field.toString()\<close> in \<^verbatim>\<open>order\<close>; the
  string of an array is its elements joined by commas. In \<^verbatim>\<open>where\<close> an array is joined by
  dots first.
\<close>

fun order_selector :: "query_field \<Rightarrow> field_selector" where
  "order_selector DocId = DocumentId"
| "order_selector (Field f) = FieldName f"
| "order_selector (FieldPath fs) = FieldName (join_strings '','' fs)"

fun where_selector :: "query_field \<Rightarrow> field_selector" where
  "where_selector DocId = DocumentId"
| "where_selector (Field f) = FieldName f"
| "where_selector (FieldPath fs) = FieldName (join_strings ''.'' fs)"

text \<open>
  \<^verbatim>\<open>typeof value === 'object' && value !== null && 'type' in value && value.type == 'doc'\<close>.
  Of the values of the model only an object can have a property \<^verbatim>\<open>type\<close>. The comparison
  is the loose one: it holds for the string \<^verbatim>\<open>'doc'\<close> and for an array whose string is
  \<^verbatim>\<open>'doc'\<close>, which is an array of one element that is such a value itself.
\<close>

fun loosely_doc :: "jsval \<Rightarrow> bool" where
  "loosely_doc (Str s) = (s = ''doc'')"
| "loosely_doc (Arr [x]) = loosely_doc x"
| "loosely_doc v = False"

fun is_doc :: "jsval \<Rightarrow> bool" where
  "is_doc (Obj kvs) = (case map_of kvs ''type'' of Some t \<Rightarrow> loosely_doc t | None \<Rightarrow> False)"
| "is_doc v = False"

text \<open>
  The value of a collected cursor: for a document, \<^verbatim>\<open>value.ref.id\<close> when the field is the
  sentinel and \<^verbatim>\<open>value.data[field]\<close> otherwise (an array used as a key is its string);
  any other value as it is.
\<close>

fun doc_value :: "query_field \<Rightarrow> jsval \<Rightarrow> jsval result" where
  "doc_value DocId v = and_then (js_get v ''ref'') (\<lambda>r. js_get r ''id'')"
| "doc_value (Field f) v = and_then (js_get v ''data'') (\<lambda>d. js_get d f)"
| "doc_value (FieldPath fs) v =
     and_then (js_get v ''data'') (\<lambda>d. js_get d (join_strings '','' fs))"

definition resolve_cursor :: "query_field \<Rightarrow> cursor \<Rightarrow> cursor result" where
  "resolve_cursor field c =
     and_then
       (if is_doc (cursor_value c) then doc_value field (cursor_value c)
        else Inr (cursor_value c))
       (\<lambda>v. Inr (Cursor (cursor_type c) (cursor_position c) v))"

text \<open>
  The body of \<^verbatim>\<open>queries.forEach\<close>, on the pair of the accumulator and the collected
  cursors. An array of cursors is truthy also when it is empty.
\<close>

fun directive :: "query_call list \<times> cursor list \<Rightarrow> query \<Rightarrow> (query_call list \<times> cursor list) result"
where
  "directive (firestoreQuery, cursors) (Order field method queryCursors) =
     (case queryCursors of
        None \<Rightarrow> Inr (firestoreQuery @ [OrderBy (order_selector field) method], cursors)
      | Some cs \<Rightarrow>
          and_then (map_result (resolve_cursor field) cs)
            (\<lambda>rs. Inr (firestoreQuery @ [OrderBy (order_selector field) method], cursors @ rs)))"
| "directive (firestoreQuery, cursors) (Where field op v) =
     and_then (unwrapData v)
       (\<lambda>w. Inr (firestoreQuery @ [WhereFilter (where_selector field) op w], cursors))"
| "directive (firestoreQuery, cursors) (Limit number) =
     Inr (firestoreQuery @ [LimitTo number], cursors)"

fun directives :: "query_call list \<times> cursor list \<Rightarrow> query list \<Rightarrow> (query_call list \<times> cursor list) result"
where
  "directives st [] = Inr st"
| "directives st (q # qs) =
     (case directive st q of Inl e \<Rightarrow> Inl e | Inr st' \<Rightarrow> directives st' qs)"

text \<open>
  \<^verbatim>\<open>groupedCursors\<close>: the first group of the cursor's position, or a new group at the end,
  receives the encoded value of the cursor.
\<close>

fun push_value :: "cursor_position \<Rightarrow> jsval \<Rightarrow> (cursor_position \<times> jsval list) list
    \<Rightarrow> (cursor_position \<times> jsval list) list" where
  "push_value pos w [] = [(pos, [w])]"
| "push_value pos w ((p, ws) # groups) =
     (if p = pos then (p, ws @ [w]) # groups else (p, ws) # push_value pos w groups)"

fun group_cursors :: "(cursor_position \<times> jsval list) list \<Rightarrow> cursor list
    \<Rightarrow> (cursor_position \<times> jsval list) list result" where
  "group_cursors groups [] = Inr groups"
| "group_cursors groups (c # cs) =
     (case unwrapData (cursor_value c) of
        Inl e \<Rightarrow> Inl e
      | Inr w \<Rightarrow> group_cursors (push_value (cursor_position c) w groups) cs)"

text \<open>
  \<^verbatim>\<open>query\<close>, up to the accumulator that \<^verbatim>\<open>get\<close> executes: the directives, the grouping, and
  the cursor methods under the guard \<^verbatim>\<open>cursors.length && cursors.every(...)\<close>.
\<close>

definition apply_cursors :: "query_call list \<Rightarrow> cursor list \<Rightarrow> (cursor_position \<times> jsval list) list
    \<Rightarrow> query_call list" where
  "apply_cursors firestoreQuery cursors groupedCursors =
     (if length cursors \<noteq> 0 \<and> list_all (\<lambda>c. cursor_value c \<noteq> Undefined) cursors
      then firestoreQuery @ map (\<lambda>(method, vs). CursorAt method vs) groupedCursors
      else firestoreQuery)"

definition query :: "query list \<Rightarrow> query_call list result" where
  "query queries =
     and_then (directives ([], []) queries) (\<lambda>(firestoreQuery, cursors).
     and_then (group_cursors [] cursors) (\<lambda>groupedCursors.
     Inr (apply_cursors firestoreQuery cursors groupedCursors)))"

section \<open>Predicates of the properties\<close>

text \<open>
  A path splits into a collection path and an id at a slash when both parts are not
  empty, no slash after this one has a character behind it, and the path has no line
  terminator.
\<close>

definition path_split :: "string \<Rightarrow> string \<Rightarrow> string \<Rightarrow> bool" where
  "path_split p c i \<longleftrightarrow>
     p = c @ ''/'' @ i \<and> c \<noteq> [] \<and> i \<noteq> [] \<and> CHR ''/'' \<notin> set (butlast i) \<and>
     list_all (\<lambda>ch. \<not> line_terminator ch) p"


definition segment :: "string \<Rightarrow> bool" where
  "segment s \<longleftrightarrow> s \<noteq> [] \<and> list_all (\<lambda>ch. ch \<noteq> CHR ''/'' \<and> \<not> line_terminator ch) s"







text \<open>
  The kinds of directives and of calls on the accumulator, and the call that a \<^verbatim>\<open>where\<close>
  directive compiles to: the selector of its field, its operator, its encoded value.
\<close>

fun is_order :: "query \<Rightarrow> bool" where
  "is_order (Order f m cs) = True"
| "is_order q = False"

fun is_where :: "query \<Rightarrow> bool" where
  "is_where (Where f op v) = True"
| "is_where q = False"

fun is_order_call :: "query_call \<Rightarrow> bool" where
  "is_order_call (OrderBy s m) = True"
| "is_order_call c = False"

fun is_where_call :: "query_call \<Rightarrow> bool" where
  "is_where_call (WhereFilter s op w) = True"
| "is_where_call c = False"

fun is_cursor_call :: "query_call \<Rightarrow> bool" where
  "is_cursor_call (CursorAt p vs) = True"
| "is_cursor_call c = False"

fun encodable :: "query \<Rightarrow> bool" where
  "encodable (Where f op v) = (case unwrapData v of Inr w \<Rightarrow> True | Inl e \<Rightarrow> False)"
| "encodable q = True"

fun where_compiled :: "query \<Rightarrow> query_call \<Rightarrow> bool" where
  "where_compiled (Where f op v) c =
     (case unwrapData v of Inr w \<Rightarrow> c = WhereFilter (where_selector f) op w | Inl e \<Rightarrow> False)"
| "where_compiled q c = False"

section \<open>The marshaller on a heap\<close>

text \<open>
  The functions above take and return values. In the program an array, an object, a date
  and an instance of a client class is a reference into the heap, and two references may
  point at the same object. To say which objects a call writes to, the marshaller is
  modelled a second time, line by line from the same source, on an explicit heap.

  A value is a primitive or the address of an object. The heap is the list of its objects;
  the object at address \<open>a\<close> is the \<open>a\<close>-th one, and \<^verbatim>\<open>new\<close>, an array or object literal
  and a call of a client constructor put a new object at the end. The only writes are
  such an allocation and the assignment to a member of an object. An object lists its own
  enumerable properties in enumeration order, an array its elements; the \<open>i\<close>-th member
  is the property that \<^verbatim>\<open>Object.keys\<close> and \<^verbatim>\<open>for ... in\<close> visit in the \<open>i\<close>-th round (keys
  are unique, so reading and overwriting the member under that key is reading and
  overwriting this slot).
\<close>

type_synonym address = nat

datatype hvalue =
    HUndefined
  | HNull
  | HBool bool
  | HNum int
  | HStr string
  | HFunction nat
  | Ptr address

datatype hobject =
    HObj "(string \<times> hvalue) list"
  | HArr "hvalue list"
  | HDate int
  | HInvalidDate
  | HTimestamp int
  | HDocumentReference string
  | HFieldValueDelete
  | HFieldValueIncrement hvalue
  | HFieldValueArrayUnion "hvalue list"
  | HFieldValueArrayRemove "hvalue list"
  | HFieldValueServerTimestamp

type_synonym heap = "hobject list"

definition alloc :: "heap \<Rightarrow> hobject \<Rightarrow> heap \<times> hvalue" where
  "alloc h obj = (h @ [obj], Ptr (length h))"

definition h_get_prop :: "(string \<times> hvalue) list \<Rightarrow> string \<Rightarrow> hvalue" where
  "h_get_prop kvs k = (case map_of kvs k of None \<Rightarrow> HUndefined | Some v \<Rightarrow> v)"

text \<open>The members of a container, by position.\<close>

fun slot_count :: "hobject \<Rightarrow> nat" where
  "slot_count (HObj kvs) = length kvs"
| "slot_count (HArr xs) = length xs"
| "slot_count obj = 0"

fun slot_value :: "hobject \<Rightarrow> nat \<Rightarrow> hvalue" where
  "slot_value (HObj kvs) i = (if i < length kvs then snd (kvs ! i) else HUndefined)"
| "slot_value (HArr xs) i = (if i < length xs then xs ! i else HUndefined)"
| "slot_value obj i = HUndefined"

text \<open>\<^verbatim>\<open>o[key] = v\<close> for the key of an existing member.\<close>

fun slot_put :: "hobject \<Rightarrow> nat \<Rightarrow> hvalue \<Rightarrow> hobject" where
  "slot_put (HObj kvs) i v = HObj (kvs[i := (fst (kvs ! i), v)])"
| "slot_put (HArr xs) i v = HArr (xs[i := v])"
| "slot_put obj i v = obj"

text \<open>
  \<^verbatim>\<open>o[key] = v\<close> for the key of the \<open>i\<close>-th member of \<open>src\<close>, on an object or array \<open>o\<close>
  that has received the members before it and so does not have this key yet.
\<close>

fun slot_add :: "hobject \<Rightarrow> hobject \<Rightarrow> nat \<Rightarrow> hvalue \<Rightarrow> hobject" where
  "slot_add (HObj kvs) (HObj src) i v = HObj (kvs @ [(fst (src ! i), v)])"
| "slot_add (HArr xs) src i v = HArr (xs @ [v])"
| "slot_add obj src i v = obj"

subsection \<open>unwrapData\<close>

text \<open>
  \<^verbatim>\<open>refToFirestoreDocument\<close>: the path is read from the reference and the client's \<^verbatim>\<open>doc\<close>
  rejects it or returns a new document pointer. (The two arrays that \<^verbatim>\<open>getRefPath\<close> builds
  for the join are dropped at once and are not put on the heap.)
\<close>

fun h_join_piece :: "hvalue \<Rightarrow> string result" where
  "h_join_piece HUndefined = Inr []"
| "h_join_piece HNull = Inr []"
| "h_join_piece (HStr s) = Inr s"
| "h_join_piece v = Inl Unmodelled"

fun h_join :: "string \<Rightarrow> hvalue list \<Rightarrow> string result" where
  "h_join sep [] = Inr []"
| "h_join sep [x] = h_join_piece x"
| "h_join sep (x # y # ys) =
     and_then (h_join_piece x) (\<lambda>s. and_then (h_join sep (y # ys)) (\<lambda>r. Inr (s @ sep @ r)))"

definition h_get :: "heap \<Rightarrow> hvalue \<Rightarrow> string \<Rightarrow> hvalue result" where
  "h_get h v k =
     (case v of
        HUndefined \<Rightarrow> Inl TypeError
      | HNull \<Rightarrow> Inl TypeError
      | Ptr a \<Rightarrow>
          (if a < length h then
             (case h ! a of
                HObj kvs \<Rightarrow>
                  (case map_of kvs k of
                     Some x \<Rightarrow> Inr x
                   | None \<Rightarrow> if k \<in> set object_prototype_keys then Inl Unmodelled
                             else Inr HUndefined)
              | _ \<Rightarrow> Inl Unmodelled)
           else Inl Unmodelled)
      | _ \<Rightarrow> Inl Unmodelled)"

definition h_concat_arg :: "heap \<Rightarrow> hvalue list \<Rightarrow> hvalue \<Rightarrow> hvalue list" where
  "h_concat_arg h xs v =
     (case v of
        Ptr a \<Rightarrow> (if a < length h then (case h ! a of HArr ys \<Rightarrow> xs @ ys | _ \<Rightarrow> xs @ [v])
                  else xs @ [v])
      | _ \<Rightarrow> xs @ [v])"

definition h_getRefPath :: "heap \<Rightarrow> hvalue \<Rightarrow> string result" where
  "h_getRefPath h r =
     and_then (h_get h r ''collection'') (\<lambda>c.
     and_then (h_get h c ''path'') (\<lambda>p.
     and_then (h_get h r ''id'') (\<lambda>i. h_join ''/'' (h_concat_arg h [p] i))))"

definition h_refToFirestoreDocument :: "heap \<Rightarrow> hvalue \<Rightarrow> heap \<times> hvalue result" where
  "h_refToFirestoreDocument h r =
     (case and_then (h_getRefPath h r) resource_path of
        Inl e \<Rightarrow> (h, Inl e)
      | Inr p \<Rightarrow> (case alloc h (HDocumentReference p) of (h', d) \<Rightarrow> (h', Inr d)))"

definition h_spread :: "heap \<Rightarrow> hvalue \<Rightarrow> hvalue list result" where
  "h_spread h v =
     (case v of
        HStr s \<Rightarrow> Inr (map (\<lambda>c. HStr [c]) s)
      | Ptr a \<Rightarrow> (if a < length h then (case h ! a of HArr xs \<Rightarrow> Inr xs | _ \<Rightarrow> Inl TypeError)
                  else Inl Unmodelled)
      | _ \<Rightarrow> Inl TypeError)"

text \<open>
  \<^verbatim>\<open>unwrapData\<close> with the depth of calls that the stack still has room for. A
  constructor of the client that rejects its argument throws before it allocates. The copy is
  \<^verbatim>\<open>Object.assign\<close> into a new array or object, and then, for each key of the copy, the
  assignment of the conversion of the member of the copy to that member of the copy.
\<close>

fun h_unwrapData :: "nat \<Rightarrow> heap \<Rightarrow> hvalue \<Rightarrow> heap \<times> hvalue result"
  and h_unwrapMembers :: "nat \<Rightarrow> heap \<Rightarrow> address \<Rightarrow> nat list \<Rightarrow> heap \<times> unit result"
where
  "h_unwrapData 0 h data = (h, Inl RangeError)"
| "h_unwrapData (Suc n) h HUndefined = (h, Inr HNull)"
| "h_unwrapData (Suc n) h (Ptr a) =
     (if a < length h then
        (case h ! a of
           HObj kvs \<Rightarrow>
             (if h_get_prop kvs ''type'' = HStr ''ref'' then h_refToFirestoreDocument h (Ptr a)
              else if h_get_prop kvs ''type'' = HStr ''value'' then
                (if h_get_prop kvs ''kind'' = HStr ''remove''
                   then (case alloc h HFieldValueDelete of (h', v) \<Rightarrow> (h', Inr v))
                 else if h_get_prop kvs ''kind'' = HStr ''increment''
                   then (case alloc h (HFieldValueIncrement (h_get_prop kvs ''number'')) of
                           (h', v) \<Rightarrow> (h', Inr v))
                 else if h_get_prop kvs ''kind'' = HStr ''arrayUnion''
                   then (case h_unwrapData n h (h_get_prop kvs ''values'') of
                           (h1, Inl e) \<Rightarrow> (h1, Inl e)
                         | (h1, Inr w) \<Rightarrow>
                             (case h_spread h1 w of
                                Inl e \<Rightarrow> (h1, Inl e)
                              | Inr ws \<Rightarrow>
                                  (if ws = [] then (h1, Inl ClientError)
                                   else (case alloc h1 (HFieldValueArrayUnion ws) of
                                           (h', v) \<Rightarrow> (h', Inr v)))))
                 else if h_get_prop kvs ''kind'' = HStr ''arrayRemove''
                   then (case h_unwrapData n h (h_get_prop kvs ''values'') of
                           (h1, Inl e) \<Rightarrow> (h1, Inl e)
                         | (h1, Inr w) \<Rightarrow>
                             (case h_spread h1 w of
                                Inl e \<Rightarrow> (h1, Inl e)
                              | Inr ws \<Rightarrow>
                                  (if ws = [] then (h1, Inl ClientError)
                                   else (case alloc h1 (HFieldValueArrayRemove ws) of
                                           (h', v) \<Rightarrow> (h', Inr v)))))
                 else if h_get_prop kvs ''kind'' = HStr ''serverDate''
                   then (case alloc h HFieldValueServerTimestamp of (h', v) \<Rightarrow> (h', Inr v))
                 else (case h_unwrapMembers n (h @ [HObj kvs]) (length h) [0..<length kvs] of
                         (h', Inl e) \<Rightarrow> (h', Inl e)
                       | (h', Inr u) \<Rightarrow> (h', Inr (Ptr (length h)))))
              else (case h_unwrapMembers n (h @ [HObj kvs]) (length h) [0..<length kvs] of
                      (h', Inl e) \<Rightarrow> (h', Inl e)
                    | (h', Inr u) \<Rightarrow> (h', Inr (Ptr (length h)))))
         | HArr xs \<Rightarrow>
             (case h_unwrapMembers n (h @ [HArr xs]) (length h) [0..<length xs] of
                (h', Inl e) \<Rightarrow> (h', Inl e)
              | (h', Inr u) \<Rightarrow> (h', Inr (Ptr (length h))))
         | HDate t \<Rightarrow>
             (case fromMillis t of
                Inl e \<Rightarrow> (h, Inl e)
              | Inr milliseconds \<Rightarrow>
                  (case alloc h (HTimestamp milliseconds) of (h', v) \<Rightarrow> (h', Inr v)))
         | HInvalidDate \<Rightarrow> (h, Inl ClientError)
         | _ \<Rightarrow> (h, Inl Unmodelled))
      else (h, Inl Unmodelled))"
| "h_unwrapData (Suc n) h data = (h, Inr data)"
| "h_unwrapMembers n h a [] = (h, Inr ())"
| "h_unwrapMembers n h a (i # is) =
     (case h_unwrapData n h (slot_value (h ! a) i) of
        (h1, Inl e) \<Rightarrow> (h1, Inl e)
      | (h1, Inr w) \<Rightarrow> h_unwrapMembers n (h1[a := slot_put (h1 ! a) i w]) a is)"

subsection \<open>wrapData\<close>

text \<open>
  \<^verbatim>\<open>pathToRef\<close> on the heap: \<^verbatim>\<open>new RichCollection(collectionPath)\<close>, then \<^verbatim>\<open>new Ref\<close> of it and
  the id.
\<close>

definition h_pathToRef :: "heap \<Rightarrow> string \<Rightarrow> heap \<times> hvalue result" where
  "h_pathToRef h path =
     (case match_path path of
        None \<Rightarrow> (h, Inl (Error (''Can't parse path '' @ path)))
      | Some (collectionPath, i) \<Rightarrow>
          (case alloc h (HObj [(''path'', HStr collectionPath)]) of
             (h1, c) \<Rightarrow>
               (case alloc h1 (HObj [(''type'', HStr ''ref''), (''collection'', c), (''id'', HStr i)]) of
                  (h2, r) \<Rightarrow> (h2, Inr r))))"

fun h_wrapData :: "nat \<Rightarrow> heap \<Rightarrow> hvalue \<Rightarrow> heap \<times> hvalue result"
  and h_wrapMembers :: "nat \<Rightarrow> heap \<Rightarrow> address \<Rightarrow> nat list \<Rightarrow> heap \<times> unit result"
where
  "h_wrapData 0 h data = (h, Inl RangeError)"
| "h_wrapData (Suc n) h (Ptr a) =
     (if a < length h then
        (case h ! a of
           HDocumentReference p \<Rightarrow> h_pathToRef h p
         | HTimestamp t \<Rightarrow> (case alloc h (HDate t) of (h', v) \<Rightarrow> (h', Inr v))
         | HObj kvs \<Rightarrow>
             (case h_wrapMembers n (h @ [HObj kvs]) (length h) [0..<length kvs] of
                (h', Inl e) \<Rightarrow> (h', Inl e)
              | (h', Inr u) \<Rightarrow> (h', Inr (Ptr (length h))))
         | HArr xs \<Rightarrow>
             (case h_wrapMembers n (h @ [HArr xs]) (length h) [0..<length xs] of
                (h', Inl e) \<Rightarrow> (h', Inl e)
              | (h', Inr u) \<Rightarrow> (h', Inr (Ptr (length h))))
         | HDate t \<Rightarrow> (case alloc h (HObj []) of (h', v) \<Rightarrow> (h', Inr v))
         | HInvalidDate \<Rightarrow> (case alloc h (HObj []) of (h', v) \<Rightarrow> (h', Inr v))
         | _ \<Rightarrow> (h, Inl Unmodelled))
      else (h, Inl Unmodelled))"
| "h_wrapData (Suc n) h data = (h, Inr data)"
| "h_wrapMembers n h a [] = (h, Inr ())"
| "h_wrapMembers n h a (i # is) =
     (case h_wrapData n h (slot_value (h ! a) i) of
        (h1, Inl e) \<Rightarrow> (h1, Inl e)
      | (h1, Inr w) \<Rightarrow> h_wrapMembers n (h1[a := slot_put (h1 ! a) i w]) a is)"

subsection \<open>nullifyData\<close>

text \<open>
  \<^verbatim>\<open>nullifyData\<close>: a new empty array or object \<^verbatim>\<open>newData\<close> at \<open>b\<close> receives, for each key of
  \<^verbatim>\<open>data\<close> at \<open>a\<close>, \<^verbatim>\<open>null\<close> for a member that is \<^verbatim>\<open>undefined\<close> and the result of the
  recursive call for any other. A date is returned as it is. A client instance would be
  enumerated field by internal field, which is outside the model.
\<close>

fun h_nullifyData :: "nat \<Rightarrow> heap \<Rightarrow> hvalue \<Rightarrow> heap \<times> hvalue result"
  and h_nullifyMembers :: "nat \<Rightarrow> heap \<Rightarrow> address \<Rightarrow> address \<Rightarrow> nat list \<Rightarrow> heap \<times> unit result"
where
  "h_nullifyData 0 h data = (h, Inl RangeError)"
| "h_nullifyData (Suc n) h (Ptr a) =
     (if a < length h then
        (case h ! a of
           HObj kvs \<Rightarrow>
             (case h_nullifyMembers n (h @ [HObj []]) a (length h) [0..<length kvs] of
                (h', Inl e) \<Rightarrow> (h', Inl e)
              | (h', Inr u) \<Rightarrow> (h', Inr (Ptr (length h))))
         | HArr xs \<Rightarrow>
             (case h_nullifyMembers n (h @ [HArr []]) a (length h) [0..<length xs] of
                (h', Inl e) \<Rightarrow> (h', Inl e)
              | (h', Inr u) \<Rightarrow> (h', Inr (Ptr (length h))))
         | HDate t \<Rightarrow> (h, Inr (Ptr a))
         | HInvalidDate \<Rightarrow> (h, Inr (Ptr a))
         | _ \<Rightarrow> (h, Inl Unmodelled))
      else (h, Inl Unmodelled))"
| "h_nullifyData (Suc n) h data = (h, Inr data)"
| "h_nullifyMembers n h a b [] = (h, Inr ())"
| "h_nullifyMembers n h a b (i # is) =
     (if slot_value (h ! a) i = HUndefined
      then h_nullifyMembers n (h[b := slot_add (h ! b) (h ! a) i HNull]) a b is
      else (case h_nullifyData n h (slot_value (h ! a) i) of
              (h1, Inl e) \<Rightarrow> (h1, Inl e)
            | (h1, Inr w) \<Rightarrow>
                h_nullifyMembers n (h1[b := slot_add (h1 ! b) (h1 ! a) i w]) a b is))"

subsection \<open>What a call leaves alone\<close>

text \<open>
  \<open>kept h h'\<close>: every object of the heap \<open>h\<close> is in \<open>h'\<close>, at its address, as it was. A
  container is an array or an object. A value is fresh with respect to \<open>h\<close> when it is a
  primitive, the address of an object allocated after \<open>h\<close>, or the address of an object
  of \<open>h\<close> that is not a container. \<open>fresh_containers h h'\<close>: the members of every object
  allocated after \<open>h\<close> are fresh. A call that starts in \<open>h\<close> and ends in \<open>h'\<close> spares
  its input when \<open>h\<close> is kept and, if the call returns, its result is fresh and so are the
  members of the new objects: no array or object of \<open>h\<close> can be reached from the result.
\<close>

definition kept :: "heap \<Rightarrow> heap \<Rightarrow> bool" where
  "kept h h' \<longleftrightarrow> take (length h) h' = h"

fun is_container :: "hobject \<Rightarrow> bool" where
  "is_container (HObj kvs) = True"
| "is_container (HArr xs) = True"
| "is_container obj = False"

fun members :: "hobject \<Rightarrow> hvalue list" where
  "members (HObj kvs) = map snd kvs"
| "members (HArr xs) = xs"
| "members obj = []"

fun fresh_value :: "heap \<Rightarrow> nat \<Rightarrow> hvalue \<Rightarrow> bool" where
  "fresh_value h n (Ptr a) = (a < n \<and> (length h \<le> a \<or> \<not> is_container (h ! a)))"
| "fresh_value h n v = True"

definition fresh_containers :: "heap \<Rightarrow> heap \<Rightarrow> bool" where
  "fresh_containers h h' \<longleftrightarrow>
     list_all (\<lambda>b. list_all (fresh_value h (length h')) (members (h' ! b))) [length h..<length h']"

definition spares :: "heap \<Rightarrow> heap \<times> hvalue result \<Rightarrow> bool" where
  "spares h outcome \<longleftrightarrow>
     kept h (fst outcome) \<and>
     (case snd outcome of
        Inl e \<Rightarrow> True
      | Inr w \<Rightarrow> fresh_value h (length (fst outcome)) w \<and> fresh_containers h (fst outcome))"

text \<open>
  What can be reached from a value through arrays and objects: the object itself, and
  what can be reached from its members. (The operands that a field value of the client
  keeps in its internal fields are not followed.)
\<close>

inductive reaches :: "heap \<Rightarrow> hvalue \<Rightarrow> address \<Rightarrow> bool" where
  here: "a < length h \<Longrightarrow> reaches h (Ptr a) a"
| member: "a < length h \<Longrightarrow> m \<in> set (members (h ! a)) \<Longrightarrow> reaches h m b \<Longrightarrow> reaches h (Ptr a) b"

code_pred reaches .

text \<open>
  A heap for examples: an object with a field that is \<^verbatim>\<open>undefined\<close>, a date, and an array;
  the object and the array hold the same date.
\<close>

definition example_heap :: heap where
  "example_heap =
     [HObj [(''a'', HUndefined), (''d'', Ptr 1), (''l'', Ptr 2)], HDate 7, HArr [HNum 1, Ptr 1]]"

text \<open>
  The value that a heap value stands for when the objects it reaches form a tree of a
  depth below \<open>n\<close>: the reading that connects the functions on the heap with the
  functions on values.
\<close>

fun tree_of :: "nat \<Rightarrow> heap \<Rightarrow> hvalue \<Rightarrow> jsval option"
  and trees_of :: "nat \<Rightarrow> heap \<Rightarrow> hvalue list \<Rightarrow> jsval list option"
  and props_of :: "nat \<Rightarrow> heap \<Rightarrow> (string \<times> hvalue) list \<Rightarrow> (string \<times> jsval) list option"
where
  "tree_of 0 h v = None"
| "tree_of (Suc n) h HUndefined = Some Undefined"
| "tree_of (Suc n) h HNull = Some Null"
| "tree_of (Suc n) h (HBool b) = Some (Bool b)"
| "tree_of (Suc n) h (HNum i) = Some (Num i)"
| "tree_of (Suc n) h (HStr s) = Some (Str s)"
| "tree_of (Suc n) h (HFunction f) = Some (Function f)"
| "tree_of (Suc n) h (Ptr a) =
     (if a < length h then
        (case h ! a of
           HObj kvs \<Rightarrow> map_option Obj (props_of n h kvs)
         | HArr xs \<Rightarrow> map_option Arr (trees_of n h xs)
         | HDate t \<Rightarrow> Some (Date t)
         | HInvalidDate \<Rightarrow> Some InvalidDate
         | HTimestamp t \<Rightarrow> Some (Timestamp t)
         | HDocumentReference p \<Rightarrow> Some (DocumentReference p)
         | HFieldValueDelete \<Rightarrow> Some FieldValueDelete
         | HFieldValueIncrement v \<Rightarrow> map_option FieldValueIncrement (tree_of n h v)
         | HFieldValueArrayUnion vs \<Rightarrow> map_option FieldValueArrayUnion (trees_of n h vs)
         | HFieldValueArrayRemove vs \<Rightarrow> map_option FieldValueArrayRemove (trees_of n h vs)
         | HFieldValueServerTimestamp \<Rightarrow> Some FieldValueServerTimestamp)
      else None)"
| "trees_of n h [] = Some []"
| "trees_of n h (v # vs) =
     (case tree_of n h v of
        None \<Rightarrow> None
      | Some x \<Rightarrow> (case trees_of n h vs of None \<Rightarrow> None | Some xs \<Rightarrow> Some (x # xs)))"
| "props_of n h [] = Some []"
| "props_of n h ((k, v) # kvs) =
     (case tree_of n h v of
        None \<Rightarrow> None
      | Some x \<Rightarrow> (case props_of n h kvs of None \<Rightarrow> None | Some xs \<Rightarrow> Some ((k, x) # xs)))"

subsection \<open>Invariants of the loops\<close>

text \<open>
  A copying loop (\<^verbatim>\<open>unwrapData\<close>, \<^verbatim>\<open>wrapData\<close>) runs on the copy at \<open>a\<close>, allocated after
  \<open>h0\<close>, with the positions \<open>is\<close> still to visit: the heap \<open>h0\<close> is kept, the members of
  every other new object are fresh, and so are the members of the copy that are not
  waiting for their visit. The loop ends with an error and \<open>h0\<close> kept, or with nothing
  left to visit.
\<close>

definition loop_ready :: "heap \<Rightarrow> heap \<Rightarrow> address \<Rightarrow> nat list \<Rightarrow> bool" where
  "loop_ready h0 h a is \<longleftrightarrow>
     kept h0 h \<and> length h0 \<le> a \<and> a < length h \<and>
     (\<forall>b. length h0 \<le> b \<and> b < length h \<and> b \<noteq> a \<longrightarrow>
        (\<forall>m\<in>set (members (h ! b)). fresh_value h0 (length h) m)) \<and>
     (\<forall>j<length (members (h ! a)). j \<notin> set is \<longrightarrow> fresh_value h0 (length h) (members (h ! a) ! j))"


definition loop_done :: "heap \<Rightarrow> address \<Rightarrow> heap \<times> unit result \<Rightarrow> bool" where
  "loop_done h0 a outcome \<longleftrightarrow>
     (case snd outcome of
        Inl e \<Rightarrow> kept h0 (fst outcome)
      | Inr u \<Rightarrow> loop_ready h0 (fst outcome) a [])"


text \<open>The loop of \<^verbatim>\<open>nullifyData\<close> fills the new container \<open>b\<close> with fresh members only.\<close>

definition fill_ready :: "heap \<Rightarrow> heap \<Rightarrow> address \<Rightarrow> bool" where
  "fill_ready h0 h b \<longleftrightarrow> kept h0 h \<and> length h0 \<le> b \<and> b < length h \<and> fresh_containers h0 h"

definition fill_done :: "heap \<Rightarrow> address \<Rightarrow> heap \<times> unit result \<Rightarrow> bool" where
  "fill_done h0 b outcome \<longleftrightarrow>
     (case snd outcome of
        Inl e \<Rightarrow> kept h0 (fst outcome)
      | Inr u \<Rightarrow> fill_ready h0 (fst outcome) b)"

section \<open>Outcomes\<close>

lemma and_then_Inr [simp]: "and_then (Inr x) f = f x"
  by (simp add: and_then_def)

lemma and_then_Inl [simp]: "and_then (Inl e) f = Inl e"
  by (simp add: and_then_def)

section \<open>Path parsing\<close>

lemma backtrack_Some:
  "backtrack n s = Some (c, i) \<longleftrightarrow>
     (\<exists>k. 1 \<le> k \<and> k \<le> n \<and> rest_matches (drop k s) \<and>
          (\<forall>j. k < j \<and> j \<le> n \<longrightarrow> \<not> rest_matches (drop j s)) \<and>
          c = take k s \<and> i = drop (Suc k) s)"
proof (induction n)
  case 0
  then show ?case by simp
next
  case (Suc n)
  show ?case
  proof (cases "rest_matches (drop (Suc n) s)")
    case True
    have "(\<exists>k. 1 \<le> k \<and> k \<le> Suc n \<and> rest_matches (drop k s) \<and>
          (\<forall>j. k < j \<and> j \<le> Suc n \<longrightarrow> \<not> rest_matches (drop j s)) \<and>
          c = take k s \<and> i = drop (Suc k) s) \<longleftrightarrow> (c = take (Suc n) s \<and> i = drop (Suc (Suc n)) s)"
      using True
      by (metis Suc_le_eq le_SucE le_refl less_Suc_eq_le not_less_eq_eq le_add1 plus_1_eq_Suc)
    then show ?thesis using True by auto
  next
    case False
    have "(\<exists>k. 1 \<le> k \<and> k \<le> Suc n \<and> rest_matches (drop k s) \<and>
          (\<forall>j. k < j \<and> j \<le> Suc n \<longrightarrow> \<not> rest_matches (drop j s)) \<and>
          c = take k s \<and> i = drop (Suc k) s) \<longleftrightarrow>
      (\<exists>k. 1 \<le> k \<and> k \<le> n \<and> rest_matches (drop k s) \<and>
          (\<forall>j. k < j \<and> j \<le> n \<longrightarrow> \<not> rest_matches (drop j s)) \<and>
          c = take k s \<and> i = drop (Suc k) s)"
      using False by (metis le_Suc_eq)
    then show ?thesis using False Suc by simp
  qed
qed

lemma rest_matches_iff:
  "rest_matches r \<longleftrightarrow> (\<exists>i. r = CHR ''/'' # i \<and> i \<noteq> [] \<and> (\<forall>ch\<in>set i. \<not> line_terminator ch))"
  by (cases r) (auto simp: rest_matches_def list_all_iff)

lemma slash_not_terminator: "\<not> line_terminator CHR ''/''"
  by (simp add: line_terminator_def)

lemma takeWhile_all: "(\<forall>x\<in>set xs. P x) \<Longrightarrow> takeWhile P xs = xs"
  by (induction xs) auto

lemma match_path_intro:
  assumes p: "p = c @ CHR ''/'' # i" and c: "c \<noteq> []" and i: "i \<noteq> []"
    and last: "CHR ''/'' \<notin> set (butlast i)"
    and lt: "\<forall>ch\<in>set p. \<not> line_terminator ch"
  shows "match_path p = Some (c, i)"
proof -
  have n: "length (takeWhile (\<lambda>c. \<not> line_terminator c) p) = length p"
    using lt by (simp add: takeWhile_all)
  let ?k = "length c"
  have k1: "1 \<le> ?k" using c by (cases c) auto
  have k2: "?k \<le> length p" using p by simp
  have rm: "rest_matches (drop ?k p)"
    using p i lt by (auto simp: rest_matches_iff)
  have later: "\<not> rest_matches (drop j p)" if j: "?k < j" "j \<le> length p" for j
  proof
    assume "rest_matches (drop j p)"
    then obtain t where t: "drop j p = CHR ''/'' # t" "t \<noteq> []"
      by (auto simp: rest_matches_iff)
    have dj: "drop j p = drop (j - Suc ?k) i"
      using p j by (simp add: drop_Cons')
    let ?m = "j - Suc ?k"
    have "drop ?m i = CHR ''/'' # t" using t dj by simp
    then have len: "length (drop ?m i) = Suc (length t)" and nth: "i ! ?m = CHR ''/''"
      by (simp_all add: nth_via_drop)
    have "?m < length i - 1"
      using len t(2) by (cases t) auto
    then have "CHR ''/'' \<in> set (butlast i)"
      using nth by (metis in_set_conv_nth length_butlast nth_butlast)
    then show False using last by simp
  qed
  have "backtrack (length p) p = Some (take ?k p, drop (Suc ?k) p)"
    unfolding backtrack_Some using k1 k2 rm later by blast
  then show ?thesis using p n by (simp add: match_path_def)
qed


lemma take_takeWhile_prefix:
  "k \<le> length (takeWhile P xs) \<Longrightarrow> take k xs = take k (takeWhile P xs)"
proof (induction xs arbitrary: k)
  case Nil
  then show ?case by simp
next
  case (Cons x xs)
  then show ?case by (cases k) (auto split: if_splits)
qed

lemma match_path_elim:
  assumes m: "match_path p = Some (c, i)"
  shows "p = c @ CHR ''/'' # i \<and> c \<noteq> [] \<and> i \<noteq> [] \<and> CHR ''/'' \<notin> set (butlast i) \<and>
         (\<forall>ch\<in>set p. \<not> line_terminator ch)"
proof -
  let ?n = "length (takeWhile (\<lambda>c. \<not> line_terminator c) p)"
  from m obtain k where k: "1 \<le> k" "k \<le> ?n" "rest_matches (drop k p)"
    and mx: "\<forall>j. k < j \<and> j \<le> ?n \<longrightarrow> \<not> rest_matches (drop j p)"
    and c: "c = take k p" and i: "i = drop (Suc k) p"
    unfolding match_path_def backtrack_Some by blast
  from k(3) obtain t where t: "drop k p = CHR ''/'' # t" "t \<noteq> []" "\<forall>ch\<in>set t. \<not> line_terminator ch"
    by (auto simp: rest_matches_iff)
  have it: "i = t" using t(1) i by (metis drop_Suc list.sel(3) tl_drop)
  have p: "p = c @ CHR ''/'' # i" using c it t(1) by (metis append_take_drop_id)
  have lc: "length c = k" using c k(2) length_takeWhile_le[of "\<lambda>c. \<not> line_terminator c" p] by simp
  have "set c \<subseteq> set (takeWhile (\<lambda>c. \<not> line_terminator c) p)"
    using c k(2) take_takeWhile_prefix[of k "\<lambda>c. \<not> line_terminator c" p]
    by (metis set_take_subset)
  then have pre: "\<forall>ch\<in>set c. \<not> line_terminator ch"
    by (auto dest: set_takeWhileD)
  have lt: "\<forall>ch\<in>set p. \<not> line_terminator ch"
    using p pre t(3) it slash_not_terminator by auto
  have n: "?n = length p" using lt by (simp add: takeWhile_all)
  have "CHR ''/'' \<notin> set (butlast i)"
  proof
    assume "CHR ''/'' \<in> set (butlast i)"
    then obtain m where m: "m < length i - 1" "i ! m = CHR ''/''"
      by (metis in_set_conv_nth length_butlast nth_butlast)
    let ?j = "Suc k + m"
    have "drop ?j p = drop m i"
      using p lc by simp
    also have "\<dots> = CHR ''/'' # drop (Suc m) i"
      using m Cons_nth_drop_Suc[of m i] by simp
    finally have "drop ?j p = CHR ''/'' # drop (Suc m) i" .
    moreover have "drop (Suc m) i \<noteq> []" using m by simp
    moreover have "\<forall>ch\<in>set (drop (Suc m) i). \<not> line_terminator ch"
      using t(3) it by (meson in_set_dropD)
    ultimately have "rest_matches (drop ?j p)" by (simp add: rest_matches_iff)
    moreover have "k < ?j" "?j \<le> ?n" using m n p lc by auto
    ultimately show False using mx by blast
  qed
  moreover have "c \<noteq> []" using c k(1) p by auto
  ultimately show ?thesis using p t(2) it lt by simp
qed


lemma match_path_iff: "match_path p = Some (c, i) \<longleftrightarrow> path_split p c i"
proof
  assume "match_path p = Some (c, i)"
  from match_path_elim[OF this] show "path_split p c i"
    by (simp add: path_split_def list_all_iff)
next
  assume "path_split p c i"
  then show "match_path p = Some (c, i)"
    by (intro match_path_intro) (simp_all add: path_split_def list_all_iff)
qed

text \<open>
  Claim C3, as amended. \<^verbatim>\<open>pathToRef\<close> succeeds exactly on the paths without a line terminator
  that have a slash with at least one character before it and after it, and it splits at
  the last such slash: the collection path is everything before it (and may itself contain
  slashes), the id everything after it. Every other path fails with the error
  \<^verbatim>\<open>Can't parse path ...\<close>.
\<close>

theorem pathToRef_greedy_split:
  "(pathToRef p = Inr r \<longleftrightarrow> (\<exists>c i. path_split p c i \<and> r = Ref c i)) \<and>
   (pathToRef p = Inl e \<longleftrightarrow>
      (\<nexists>c i. path_split p c i) \<and> e = Error (''Can't parse path '' @ p))"
proof (cases "match_path p")
  case None
  have no: "\<nexists>c i. path_split p c i"
    using None by (simp add: match_path_iff[symmetric])
  have "pathToRef p = Inl (Error (''Can't parse path '' @ p))"
    using None by (simp add: pathToRef_def)
  then show ?thesis using no by auto
next
  case (Some ci)
  obtain c i where ci: "ci = (c, i)" by (cases ci)
  have split: "path_split p c i" using Some ci by (simp add: match_path_iff)
  have uniq: "c' = c \<and> i' = i" if "path_split p c' i'" for c' i'
    using that Some ci by (simp add: match_path_iff[symmetric])
  have val: "pathToRef p = Inr (Ref c i)"
    using Some ci by (simp add: pathToRef_def)
  have "(\<exists>c' i'. path_split p c' i' \<and> r = Ref c' i') \<longleftrightarrow> r = Ref c i"
    using split uniq by blast
  then show ?thesis using val split by auto
qed

text \<open>The two paths of the specification: \<^verbatim>\<open>'users/42'\<close> parses, \<^verbatim>\<open>'users'\<close> does not.\<close>

theorem pathToRef_greedy_split_witness:
  "pathToRef ''users/42'' = Inr (Ref ''users'' ''42'') \<and>
   pathToRef ''users'' = Inl (Error ''Can't parse path users'')"
proof -
  have a: "path_split ''users/42'' ''users'' ''42''"
    by (simp add: path_split_def line_terminator_def)
  have b: "\<nexists>c i. path_split ''users'' c i"
    by (auto simp: path_split_def append_eq_Cons_conv Cons_eq_append_conv)
  from a have "pathToRef ''users/42'' = Inr (Ref ''users'' ''42'')"
    using pathToRef_greedy_split[of "''users/42''" "Ref ''users'' ''42''"] by blast
  moreover from b have "pathToRef ''users'' = Inl (Error ''Can't parse path users'')"
    using pathToRef_greedy_split[of "''users''" _ "Error ''Can't parse path users''"] by simp
  ultimately show ?thesis by simp
qed

text \<open>
  Claim C3 as stated says that a path with more than one slash fails. It parses: the first
  group of the pattern is greedy and the dot matches a slash.
\<close>

theorem pathToRef_two_separators:
  "pathToRef ''a/b/c'' = Inr (Ref ''a/b'' ''c'')"
  by (simp add: pathToRef_def match_path_def rest_matches_def line_terminator_def)

section \<open>Round trip through the marshaller\<close>

subsection \<open>What the store client accepts\<close>















text \<open>
  The store client rejects a date after the year 9999, an invalid date, and a reference
  whose path has an odd number of segments or an empty one. It accepts a collection path
  with a leading slash, and drops the slash.
\<close>

lemma date_out_of_range_rejected: "unwrapData (Date 253402300800000) = Inl ClientError"
  by (simp add: fromMillis_def MIN_SECONDS_def MAX_SECONDS_def)

lemma invalid_date_rejected: "unwrapData InvalidDate = Inl ClientError"
  by simp

lemma odd_segments_rejected: "unwrapData (Ref ''a/b'' ''c'') = Inl ClientError"
  by (simp add: Ref_def RichCollection_def get_prop_def refToFirestoreDocument_def
      getRefPath_def concat_arg_def firestore_doc_def resource_path_def)

lemma empty_segment_rejected: "unwrapData (Ref ''users/'' ''42'') = Inl ClientError"
  by (simp add: Ref_def RichCollection_def get_prop_def refToFirestoreDocument_def
      getRefPath_def concat_arg_def firestore_doc_def resource_path_def)

lemma leading_slash_dropped:
  "and_then (unwrapData (Ref ''/users'' ''42'')) wrapData = Inr (Ref ''users'' ''42'')"
  by (simp add: Ref_def RichCollection_def get_prop_def refToFirestoreDocument_def
      getRefPath_def concat_arg_def firestore_doc_def resource_path_def pathToRef_def
      match_path_def line_terminator_def rest_matches_def)

subsection \<open>The round trip\<close>







section \<open>Writes\<close>

lemma reduce_no_falsy:
  "reduce (Obj kvs) (map Some fs) =
     Inr (Obj (foldl (\<lambda>acc f. case f of UpdateField k v \<Rightarrow> assign acc (field_name k) v) kvs fs))"
proof (induction fs arbitrary: kvs)
  case Nil
  then show ?case by simp
next
  case (Cons f fs)
  then show ?case by (cases f) simp
qed

lemma reduce_after_falsy:
  "reduce acc (None # Some f # fs) = Inl TypeError"
  by (cases f) simp

text \<open>
  Claim C1. The edit list of the specification, with a falsy entry between two edits,
  applies nothing: the callback of \<^verbatim>\<open>reduce\<close> returns no accumulator for the falsy entry,
  the next edit is assigned to \<^verbatim>\<open>undefined\<close>, and \<^verbatim>\<open>update\<close> throws a \<^verbatim>\<open>TypeError\<close>
  before it reaches the store.
\<close>

theorem update_edit_list_falsy_entry:
  "update path i (UpdateFields [Some (UpdateField (Key ''a'') (Num 1)), None,
                                 Some (UpdateField (KeyPath [''b'', ''c'']) (Num 2))])
     = ([], Inl TypeError)"
  by (simp add: update_def and_then_def)

text \<open>Without the falsy entry the same edits reach the store as \<^verbatim>\<open>{a: 1, 'b.c': 2}\<close>.\<close>

lemma update_edit_list_no_falsy_entry:
  "update ''users'' ''42'' (UpdateFields [Some (UpdateField (Key ''a'') (Num 1)),
                                 Some (UpdateField (KeyPath [''b'', ''c'']) (Num 2))])
     = ([DocUpdate ''users/42'' (Obj [(''a'', Num 1), (''b.c'', Num 2)])], Inr ())"
  by (simp add: update_def and_then_def get_prop_def firebaseDoc_def assign_def array_index_def)

text \<open>An edit of an array index is enumerated before the edits made ahead of it.\<close>

lemma update_edit_list_array_index:
  "update ''users'' ''42'' (UpdateFields [Some (UpdateField (Key ''a'') (Num 1)),
                                 Some (UpdateField (Key ''7'') (Num 2))])
     = ([DocUpdate ''users/42'' (Obj [(''7'', Num 2), (''a'', Num 1)])], Inr ())"
  by (simp add: update_def and_then_def get_prop_def firebaseDoc_def assign_def array_index_def)

text \<open>
  Claim C6. \<^verbatim>\<open>set\<close> never calls a function argument: whatever the function would return,
  the function object itself is encoded (as itself) and handed to the store.
\<close>

theorem set_doc_function_not_called:
  "set_doc path i (WriteGetter f g) = ([DocSet (firebaseDoc path i) (Function f)], Inr ())"
  by (simp add: set_doc_def)

text \<open>\<^verbatim>\<open>upset\<close> and \<^verbatim>\<open>add\<close> call the function and write the encoding of what it returns.\<close>

lemma upset_function_called:
  "g writeHelpers = Inr d \<Longrightarrow> unwrapData d = Inr w \<Longrightarrow>
   upset path i (WriteGetter f g) = ([DocSetMerge (firebaseDoc path i) w], Inr ())"
  by (simp add: upset_def and_then_def)

lemma add_function_called:
  "g writeHelpers = Inr d \<Longrightarrow> unwrapData d = Inr w \<Longrightarrow>
   add path (WriteGetter f g) = ([CollectionAdd path w], Inr ())"
  by (simp add: add_def and_then_def)

section \<open>Batch reads\<close>

text \<open>
  Claim C8. For an empty list of ids \<^verbatim>\<open>getMany\<close> returns the empty list and calls no
  primitive of the store.
\<close>

theorem getMany_empty: "getMany db path [] opt = ([], Inr [])"
  by (simp add: getMany_def)

lemma map_result_append:
  "map_result f (xs @ ys) =
     (case map_result f xs of
        Inl e \<Rightarrow> Inl e
      | Inr a \<Rightarrow> (case map_result f ys of Inl e \<Rightarrow> Inl e | Inr b \<Rightarrow> Inr (a @ b)))"
  by (induction xs) (auto split: sum.splits)

lemma map_result_all:
  "(\<And>x. x \<in> set xs \<Longrightarrow> f x = Inr (g x)) \<Longrightarrow> map_result f xs = Inr (map g xs)"
  by (induction xs) auto

lemma not_nullish_Doc: "not_nullish (Doc path i d)"
  by (simp add: not_nullish_def Doc_def)

lemma not_nullish_Null: "\<not> not_nullish Null"
  by (simp add: not_nullish_def)

lemma snap_doc_found:
  "decode_data d = Inr v \<Longrightarrow> snap_doc path opt (Snapshot i (Some d)) = Inr (Doc path i v)"
  by (simp add: and_then_def)

lemma getMany_default:
  assumes ids: "ids = pre @ b # post"
    and b: "db (firebaseDoc path b) = None"
    and pre: "\<forall>i\<in>set pre. db (firebaseDoc path i) \<noteq> None"
    and found: "\<forall>i\<in>set ids. \<forall>d. db (firebaseDoc path i) = Some d \<longrightarrow> decode_data d = Inr (data i)"
  shows "getMany db path ids None =
           ([GetAll (map (firebaseDoc path) ids)], Inl (Error (''Missing document with id '' @ b)))"
proof -
  have ne: "length ids \<noteq> 0" using ids by simp
  let ?snap = "\<lambda>i. Snapshot i (db (firebaseDoc path i))"
  have all: "getAll db path ids = map ?snap ids"
    by (simp add: getAll_def)
  have pre_ok: "map_result (snap_doc path None) (map ?snap pre) = Inr (map (\<lambda>s. case s of Snapshot i d \<Rightarrow> Doc path i (data i)) (map ?snap pre))"
  proof (rule map_result_all)
    fix s assume "s \<in> set (map ?snap pre)"
    then obtain i where i: "i \<in> set pre" "s = ?snap i" by auto
    then obtain d where d: "db (firebaseDoc path i) = Some d" using pre by auto
    then have "decode_data d = Inr (data i)" using found i(1) ids by auto
    then show "snap_doc path None s = Inr (case s of Snapshot i d \<Rightarrow> Doc path i (data i))"
      using i(2) d by (simp add: snap_doc_found)
  qed
  have "map_result (snap_doc path None) (map ?snap ids) = Inl (Error (''Missing document with id '' @ b))"
    using pre_ok b by (simp add: ids map_result_append defaultOnMissing_def and_then_def)
  then show "getMany db path ids None =
           ([GetAll (map (firebaseDoc path) ids)], Inl (Error (''Missing document with id '' @ b)))"
    using ne by (simp add: getMany_def all and_then_def)
qed

lemma getMany_ignore:
  assumes ids: "ids \<noteq> []"
    and found: "\<forall>i\<in>set ids. \<forall>d. db (firebaseDoc path i) = Some d \<longrightarrow> decode_data d = Inr (data i)"
  shows "getMany db path ids (Some Ignore) =
           ([GetAll (map (firebaseDoc path) ids)],
            Inr (map (\<lambda>i. Doc path i (data i)) (filter (\<lambda>i. db (firebaseDoc path i) \<noteq> None) ids)))"
proof -
  have ne: "length ids \<noteq> 0" using ids by simp
  let ?snap = "\<lambda>i. Snapshot i (db (firebaseDoc path i))"
  let ?g = "\<lambda>i. if db (firebaseDoc path i) = None then Null else Doc path i (data i)"
  have "map_result (snap_doc path (Some Ignore)) (map ?snap ids) = Inr (map (\<lambda>s. case s of Snapshot i d \<Rightarrow> ?g i) (map ?snap ids))"
  proof (rule map_result_all)
    fix s assume "s \<in> set (map ?snap ids)"
    then obtain i where i: "i \<in> set ids" "s = ?snap i" by auto
    show "snap_doc path (Some Ignore) s = Inr (case s of Snapshot i d \<Rightarrow> ?g i)"
    proof (cases "db (firebaseDoc path i)")
      case None
      then show ?thesis using i(2) by simp
    next
      case (Some d)
      then have "decode_data d = Inr (data i)" using found i(1) by auto
      then show ?thesis using i(2) Some by (simp add: snap_doc_found)
    qed
  qed
  then have "map_result (snap_doc path (Some Ignore)) (getAll db path ids) = Inr (map ?g ids)"
    by (simp add: getAll_def comp_def)
  moreover have "filter not_nullish (map ?g ids) =
      map (\<lambda>i. Doc path i (data i)) (filter (\<lambda>i. db (firebaseDoc path i) \<noteq> None) ids)"
    by (induction ids) (auto simp: not_nullish_Doc not_nullish_Null)
  ultimately show "getMany db path ids (Some Ignore) =
           ([GetAll (map (firebaseDoc path) ids)],
            Inr (map (\<lambda>i. Doc path i (data i)) (filter (\<lambda>i. db (firebaseDoc path i) \<noteq> None) ids)))"
    using ne by (simp add: getMany_def and_then_def)
qed

lemma getMany_callback:
  assumes ids: "ids \<noteq> []"
    and found: "\<forall>i\<in>set ids. \<forall>d. db (firebaseDoc path i) = Some d \<longrightarrow> decode_data d = Inr (data i)"
    and cb: "\<forall>i\<in>set ids. db (firebaseDoc path i) = None \<longrightarrow> f i = Inr (placeholder i)"
  shows "getMany db path ids (Some (OnMissing f)) =
           ([GetAll (map (firebaseDoc path) ids)],
            Inr (map (\<lambda>i. Doc path i (if db (firebaseDoc path i) = None then placeholder i else data i)) ids))"
proof -
  have ne: "length ids \<noteq> 0" using ids by simp
  let ?snap = "\<lambda>i. Snapshot i (db (firebaseDoc path i))"
  let ?g = "\<lambda>i. Doc path i (if db (firebaseDoc path i) = None then placeholder i else data i)"
  have "map_result (snap_doc path (Some (OnMissing f))) (map ?snap ids) = Inr (map (\<lambda>s. case s of Snapshot i d \<Rightarrow> ?g i) (map ?snap ids))"
  proof (rule map_result_all)
    fix s assume "s \<in> set (map ?snap ids)"
    then obtain i where i: "i \<in> set ids" "s = ?snap i" by auto
    show "snap_doc path (Some (OnMissing f)) s = Inr (case s of Snapshot i d \<Rightarrow> ?g i)"
    proof (cases "db (firebaseDoc path i)")
      case None
      then have "f i = Inr (placeholder i)" using cb i(1) by simp
      then show ?thesis using i(2) None by (simp add: and_then_def)
    next
      case (Some d)
      then have "decode_data d = Inr (data i)" using found i(1) by auto
      then show ?thesis using i(2) Some by (simp add: snap_doc_found)
    qed
  qed
  then have "map_result (snap_doc path (Some (OnMissing f))) (getAll db path ids) = Inr (map ?g ids)"
    by (simp add: getAll_def comp_def)
  moreover have "filter not_nullish (map ?g ids) = map ?g ids"
    by (induction ids) (auto simp: not_nullish_Doc)
  ultimately show "getMany db path ids (Some (OnMissing f)) =
           ([GetAll (map (firebaseDoc path) ids)], Inr (map ?g ids))"
    using ne by (simp add: getMany_def and_then_def)
qed


text \<open>
  Claim C5. Some id is missing, \<open>b\<close> is the first one in the order of the ids, and the
  stored data of every found id decodes (to \<open>data i\<close>).
  \<^item> Without a policy \<^verbatim>\<open>getMany\<close> throws the error that names the first missing id, after
    the one batch read.
  \<^item> Under \<^verbatim>\<open>'ignore'\<close> it returns the documents of the found ids, in the order of the ids.
  \<^item> Under a callback that returns \<open>placeholder i\<close> for every missing id it returns one
    document per id, in the order of the ids, the missing ones with the placeholder as
    their data.
\<close>

theorem getMany_missing_policies:
  assumes first: "find (\<lambda>i. db (firebaseDoc path i) = None) ids = Some b"
    and found: "\<forall>i\<in>set ids. \<forall>d. db (firebaseDoc path i) = Some d \<longrightarrow> decode_data d = Inr (data i)"
  shows "getMany db path ids None =
           ([GetAll (map (firebaseDoc path) ids)], Inl (Error (''Missing document with id '' @ b))) \<and>
         getMany db path ids (Some Ignore) =
           ([GetAll (map (firebaseDoc path) ids)],
            Inr (map (\<lambda>i. Doc path i (data i)) (filter (\<lambda>i. db (firebaseDoc path i) \<noteq> None) ids))) \<and>
         ((\<forall>i\<in>set ids. db (firebaseDoc path i) = None \<longrightarrow> f i = Inr (placeholder i)) \<longrightarrow>
          getMany db path ids (Some (OnMissing f)) =
            ([GetAll (map (firebaseDoc path) ids)],
             Inr (map (\<lambda>i. Doc path i (if db (firebaseDoc path i) = None then placeholder i else data i)) ids)))"
proof -
  from first obtain n where n: "n < length ids" "db (firebaseDoc path (ids ! n)) = None"
    "b = ids ! n" "\<forall>j<n. db (firebaseDoc path (ids ! j)) \<noteq> None"
    unfolding find_Some_iff by blast
  have ids: "ids = take n ids @ b # drop (Suc n) ids"
    using n(1,3) by (simp add: id_take_nth_drop)
  have b: "db (firebaseDoc path b) = None" using n(2,3) by simp
  have pre: "\<forall>i\<in>set (take n ids). db (firebaseDoc path i) \<noteq> None"
  proof
    fix i assume "i \<in> set (take n ids)"
    then obtain j where "j < n" "i = ids ! j"
      using n(1) by (auto simp: in_set_conv_nth)
    then show "db (firebaseDoc path i) \<noteq> None" using n(4) by simp
  qed
  have ne: "ids \<noteq> []" using n(1) by auto
  show ?thesis
    using getMany_default[OF ids b pre found] getMany_ignore[OF ne found]
      getMany_callback[OF ne found, of f placeholder]
    by blast
qed

text \<open>
  The store of the specification, \<^verbatim>\<open>{a: {name: 'X'}}\<close> in the collection \<^verbatim>\<open>users\<close>, asked for
  \<^verbatim>\<open>['a', 'b']\<close>.
\<close>

theorem getMany_missing_policies_witness:
  "getMany [''users/a'' \<mapsto> Obj [(''name'', Str ''X'')]] ''users'' [''a'', ''b''] None =
     ([GetAll [''users/a'', ''users/b'']], Inl (Error ''Missing document with id b'')) \<and>
   getMany [''users/a'' \<mapsto> Obj [(''name'', Str ''X'')]] ''users'' [''a'', ''b''] (Some Ignore) =
     ([GetAll [''users/a'', ''users/b'']], Inr [Doc ''users'' ''a'' (Obj [(''name'', Str ''X'')])]) \<and>
   getMany [''users/a'' \<mapsto> Obj [(''name'', Str ''X'')]] ''users'' [''a'', ''b'']
       (Some (OnMissing (\<lambda>i. Inr (Obj [(''name'', Str ''unknown'')])))) =
     ([GetAll [''users/a'', ''users/b'']],
      Inr [Doc ''users'' ''a'' (Obj [(''name'', Str ''X'')]),
           Doc ''users'' ''b'' (Obj [(''name'', Str ''unknown'')])])"
proof -
  let ?db = "[''users/a'' \<mapsto> Obj [(''name'', Str ''X'')]]"
  have first: "find (\<lambda>i. ?db (firebaseDoc ''users'' i) = None) [''a'', ''b''] = Some ''b''"
    by (simp add: firebaseDoc_def)
  have found: "\<forall>i\<in>set [''a'', ''b'']. \<forall>d. ?db (firebaseDoc ''users'' i) = Some d \<longrightarrow>
      decode_data d = Inr ((\<lambda>i. Obj [(''name'', Str ''X'')]) i)"
    by (simp add: firebaseDoc_def decode_data_def)
  have cb: "\<forall>i\<in>set [''a'', ''b'']. ?db (firebaseDoc ''users'' i) = None \<longrightarrow>
      (\<lambda>i. Inr (Obj [(''name'', Str ''unknown'')])) i = Inr ((\<lambda>i. Obj [(''name'', Str ''unknown'')]) i)"
    by simp
  show ?thesis
    using getMany_missing_policies[where db = "?db" and path = "''users''" and b = "''b''"
        and data = "\<lambda>i. Obj [(''name'', Str ''X'')]"
        and f = "\<lambda>i. Inr (Obj [(''name'', Str ''unknown'')])"
        and placeholder = "\<lambda>i. Obj [(''name'', Str ''unknown'')]", OF first found] cb
    by (simp add: firebaseDoc_def)
qed

section \<open>Query compilation\<close>

lemma directives_append:
  "directives st (xs @ ys) =
     (case directives st xs of Inl e \<Rightarrow> Inl e | Inr st' \<Rightarrow> directives st' ys)"
  by (induction xs arbitrary: st) (auto split: sum.splits)

lemma directive_extends:
  assumes "directive (fq, cs) d = Inr (fq', cs')"
  shows "\<exists>c rs. fq' = fq @ [c] \<and> cs' = cs @ rs \<and> \<not> is_cursor_call c \<and>
           (is_where_call c \<longleftrightarrow> is_where d) \<and> (is_where d \<longrightarrow> where_compiled d c)"
proof (cases d)
  case (Order f m qc)
  then show ?thesis using assms
    by (cases qc; cases "map_result (resolve_cursor f) (the qc)") auto
next
  case (Where f op v)
  then show ?thesis using assms by (cases "unwrapData v") auto
next
  case (Limit n)
  then show ?thesis using assms by auto
qed

lemma directives_extends:
  assumes "directives (fq, cs) qs = Inr (fq', cs')"
  shows "\<exists>calls rs. fq' = fq @ calls \<and> cs' = cs @ rs \<and> filter is_cursor_call calls = [] \<and>
           list_all2 where_compiled (filter is_where qs) (filter is_where_call calls)"
  using assms
proof (induction qs arbitrary: fq cs)
  case Nil
  then show ?case by simp
next
  case (Cons d qs)
  from Cons.prems obtain st where st: "directive (fq, cs) d = Inr st" "directives st qs = Inr (fq', cs')"
    by (auto split: sum.splits)
  obtain fq1 cs1 where st1: "st = (fq1, cs1)" by (cases st)
  from directive_extends[OF st(1)[unfolded st1]] obtain c rs
    where c: "fq1 = fq @ [c]" "cs1 = cs @ rs" "\<not> is_cursor_call c"
      "is_where_call c \<longleftrightarrow> is_where d" "is_where d \<longrightarrow> where_compiled d c"
    by blast
  from Cons.IH[OF st(2)[unfolded st1]] obtain calls rs'
    where r: "fq' = fq1 @ calls" "cs' = cs1 @ rs'" "filter is_cursor_call calls = []"
      "list_all2 where_compiled (filter is_where qs) (filter is_where_call calls)"
    by blast
  have "fq' = fq @ (c # calls)" "cs' = cs @ (rs @ rs')"
    using c r by simp_all
  moreover have "filter is_cursor_call (c # calls) = []" using c r by simp
  moreover have "list_all2 where_compiled (filter is_where (d # qs)) (filter is_where_call (c # calls))"
    using c r by simp
  ultimately show ?case by blast
qed

lemma push_value_not_Nil: "push_value p w g \<noteq> []"
  by (induction p w g rule: push_value.induct) auto

lemma group_cursors_not_Nil:
  "group_cursors g cs = Inr g' \<Longrightarrow> cs \<noteq> [] \<or> g \<noteq> [] \<Longrightarrow> g' \<noteq> []"
proof (induction cs arbitrary: g)
  case Nil
  then show ?case by simp
next
  case (Cons c cs)
  then show ?case by (auto split: sum.splits simp: push_value_not_Nil)
qed

lemma query_Inr:
  assumes "query qs = Inr q"
  obtains fq cursors groups where "directives ([], []) qs = Inr (fq, cursors)"
    and "group_cursors [] cursors = Inr groups"
    and "q = apply_cursors fq cursors groups"
proof -
  from assms obtain st where st: "directives ([], []) qs = Inr st"
    by (cases "directives ([], []) qs") (auto simp: query_def)
  obtain fq cursors where fc: "st = (fq, cursors)" by (cases st)
  from assms st fc obtain groups where g: "group_cursors [] cursors = Inr groups"
    by (cases "group_cursors [] cursors") (auto simp: query_def)
  have "q = apply_cursors fq cursors groups"
    using assms st fc g by (simp add: query_def)
  then show ?thesis using that st fc g by simp
qed

text \<open>
  Claim C2. When the compilation returns, a cursor method is among the calls of the
  compiled query if and only if a cursor was collected and every collected cursor has a
  resolved value other than \<^verbatim>\<open>undefined\<close>; the calls that are not cursor methods are the
  accumulator as the directives left it, so under a failed guard the query has no cursor
  method at all.
\<close>

theorem cursors_all_or_nothing:
  assumes "directives ([], []) qs = Inr (fq, cursors)" and "query qs = Inr q"
  shows "((\<exists>c\<in>set q. is_cursor_call c) \<longleftrightarrow>
            cursors \<noteq> [] \<and> (\<forall>c\<in>set cursors. cursor_value c \<noteq> Undefined)) \<and>
         filter (\<lambda>c. \<not> is_cursor_call c) q = fq"
proof -
  from assms(2) obtain fq0 cursors0 groups where
    d: "directives ([], []) qs = Inr (fq0, cursors0)"
    and g: "group_cursors [] cursors0 = Inr groups"
    and q: "q = apply_cursors fq0 cursors0 groups"
    by (rule query_Inr)
  have eq: "fq0 = fq" "cursors0 = cursors" using d assms(1) by simp_all
  from directives_extends[OF assms(1)] have nc: "filter is_cursor_call fq = []"
    by auto
  then have nc': "filter (\<lambda>c. \<not> is_cursor_call c) fq = fq" "\<forall>c\<in>set fq. \<not> is_cursor_call c"
    by (simp_all add: filter_empty_conv)
  show ?thesis
  proof (cases "cursors \<noteq> [] \<and> (\<forall>c\<in>set cursors. cursor_value c \<noteq> Undefined)")
    case True
    then have ne: "groups \<noteq> []" using group_cursors_not_Nil[OF g] eq by simp
    have qq: "q = fq @ map (\<lambda>(method, vs). CursorAt method vs) groups"
      using True q eq by (simp add: apply_cursors_def list_all_iff)
    have "\<exists>c\<in>set q. is_cursor_call c"
      using ne qq by (cases groups) auto
    moreover have "filter (\<lambda>c. \<not> is_cursor_call c) q = fq"
      using qq nc' by (auto simp: filter_empty_conv)
    ultimately show ?thesis using True by blast
  next
    case False
    then have "q = fq" using q eq by (auto simp: apply_cursors_def list_all_iff)
    then show ?thesis using False nc' by auto
  qed
qed

text \<open>
  Two order directives with one cursor each: with both values defined the cursor method is
  applied, with the second value \<^verbatim>\<open>undefined\<close> none is.
\<close>

theorem cursors_all_or_nothing_witness:
  "query [Order (Field ''a'') ''asc'' (Some [startAt (Num 1)]),
          Order (Field ''b'') ''asc'' (Some [startAt (Num 2)])] =
     Inr [OrderBy (FieldName ''a'') ''asc'', OrderBy (FieldName ''b'') ''asc'',
          CursorAt StartAt [Num 1, Num 2]] \<and>
   (\<exists>c\<in>set [OrderBy (FieldName ''a'') ''asc'', OrderBy (FieldName ''b'') ''asc'',
          CursorAt StartAt [Num 1, Num 2]]. is_cursor_call c) \<and>
   query [Order (Field ''a'') ''asc'' (Some [startAt (Num 1)]),
          Order (Field ''b'') ''asc'' (Some [startAt Undefined])] =
     Inr [OrderBy (FieldName ''a'') ''asc'', OrderBy (FieldName ''b'') ''asc''] \<and>
   \<not> (\<exists>c\<in>set [OrderBy (FieldName ''a'') ''asc'', OrderBy (FieldName ''b'') ''asc'']. is_cursor_call c)"
proof -
  let ?qs1 = "[Order (Field ''a'') ''asc'' (Some [startAt (Num 1)]),
          Order (Field ''b'') ''asc'' (Some [startAt (Num 2)])]"
  let ?qs2 = "[Order (Field ''a'') ''asc'' (Some [startAt (Num 1)]),
          Order (Field ''b'') ''asc'' (Some [startAt Undefined])]"
  let ?fq = "[OrderBy (FieldName ''a'') ''asc'', OrderBy (FieldName ''b'') ''asc'']"
  have d1: "directives ([], []) ?qs1 = Inr (?fq, [Cursor ''cursor'' StartAt (Num 1), Cursor ''cursor'' StartAt (Num 2)])"
    by (simp add: resolve_cursor_def startAt_def)
  have q1: "query ?qs1 = Inr (?fq @ [CursorAt StartAt [Num 1, Num 2]])"
    unfolding query_def d1 by (simp add: apply_cursors_def)
  have d2: "directives ([], []) ?qs2 = Inr (?fq, [Cursor ''cursor'' StartAt (Num 1), Cursor ''cursor'' StartAt Undefined])"
    by (simp add: resolve_cursor_def startAt_def)
  have q2: "query ?qs2 = Inr ?fq"
    unfolding query_def d2 by (simp add: apply_cursors_def)
  have "\<exists>c\<in>set (?fq @ [CursorAt StartAt [Num 1, Num 2]]). is_cursor_call c"
    using cursors_all_or_nothing[OF d1 q1] by simp
  moreover have "\<not> (\<exists>c\<in>set ?fq. is_cursor_call c)"
    using cursors_all_or_nothing[OF d2 q2] by simp
  ultimately show ?thesis using q1 q2 by simp
qed

lemma order_free_segment:
  assumes "\<forall>q\<in>set qs. \<not> is_order q" and "\<forall>q\<in>set qs. encodable q"
  shows "\<exists>calls. directives (fq, cs) qs = Inr (fq @ calls, cs) \<and>
           filter is_cursor_call calls = [] \<and> filter is_order_call calls = []"
  using assms
proof (induction qs arbitrary: fq)
  case Nil
  then show ?case by simp
next
  case (Cons d qs)
  from Cons.prems have d: "\<not> is_order d" "encodable d"
    and rest: "\<forall>q\<in>set qs. \<not> is_order q" "\<forall>q\<in>set qs. encodable q"
    by simp_all
  from d obtain c where c: "directive (fq, cs) d = Inr (fq @ [c], cs)"
    "\<not> is_cursor_call c" "\<not> is_order_call c"
    by (cases d) (auto split: sum.splits)
  from Cons.IH[OF rest, of "fq @ [c]"] obtain calls where
    calls: "directives (fq @ [c], cs) qs = Inr ((fq @ [c]) @ calls, cs)"
      "filter is_cursor_call calls = []" "filter is_order_call calls = []"
    by blast
  have "directives (fq, cs) (d # qs) = Inr (fq @ (c # calls), cs)"
    using c(1) calls(1) by simp
  moreover have "filter is_cursor_call (c # calls) = []" "filter is_order_call (c # calls) = []"
    using c calls by simp_all
  ultimately show ?case by blast
qed

lemma order_with_cursor:
  assumes "resolve_cursor f c = Inr r"
  shows "directive (fq, cs) (Order f m (Some [c])) = Inr (fq @ [OrderBy (order_selector f) m], cs @ [r])"
  using assms by simp

lemma resolve_cursor_position:
  "resolve_cursor f c = Inr r \<Longrightarrow> cursor_position r = cursor_position c"
  by (auto simp: resolve_cursor_def and_then_def split: sum.splits)

text \<open>
  Claim C7. The directives hold exactly two order directives, each with one
  \<^verbatim>\<open>startAt\<close> cursor whose resolved value is defined and encodes; the values of the
  \<^verbatim>\<open>where\<close> directives encode. Then the compilation returns a query whose only cursor
  method is one \<^verbatim>\<open>startAt\<close> with the two encoded values, in the order in which
  \<^verbatim>\<open>orderBy\<close> was called for the two fields.
\<close>

theorem two_startAt_cursors_grouped:
  assumes orders: "filter is_order qs = [Order f1 m1 (Some [c1]), Order f2 m2 (Some [c2])]"
    and pos: "cursor_position c1 = StartAt" "cursor_position c2 = StartAt"
    and r1: "resolve_cursor f1 c1 = Inr r1" and r2: "resolve_cursor f2 c2 = Inr r2"
    and defined: "cursor_value r1 \<noteq> Undefined" "cursor_value r2 \<noteq> Undefined"
    and w1: "unwrapData (cursor_value r1) = Inr w1" and w2: "unwrapData (cursor_value r2) = Inr w2"
    and enc: "\<forall>q\<in>set qs. encodable q"
  shows "\<exists>q. query qs = Inr q \<and>
           filter is_cursor_call q = [CursorAt StartAt [w1, w2]] \<and>
           filter is_order_call q = [OrderBy (order_selector f1) m1, OrderBy (order_selector f2) m2]"
proof -
  let ?o1 = "Order f1 m1 (Some [c1])" and ?o2 = "Order f2 m2 (Some [c2])"
  from filter_eq_ConsD[OF orders] obtain A rest where
    A: "qs = A @ ?o1 # rest" "\<forall>q\<in>set A. \<not> is_order q" "[?o2] = filter is_order rest"
    by blast
  from filter_eq_ConsD[OF A(3)[symmetric]] obtain B C where
    B: "rest = B @ ?o2 # C" "\<forall>q\<in>set B. \<not> is_order q" "[] = filter is_order C"
    by blast
  have C: "\<forall>q\<in>set C. \<not> is_order q" using B(3)[symmetric] by (simp add: filter_empty_conv)
  have qs: "qs = A @ ?o1 # B @ ?o2 # C" using A(1) B(1) by simp
  have encA: "\<forall>q\<in>set A. encodable q" and encB: "\<forall>q\<in>set B. encodable q"
    and encC: "\<forall>q\<in>set C. encodable q"
    using enc qs by auto
  obtain ca where ca: "directives ([], []) A = Inr ([] @ ca, [])"
    "filter is_cursor_call ca = []" "filter is_order_call ca = []"
    using order_free_segment[OF A(2) encA, of "[]" "[]"] by blast
  let ?fq1 = "ca @ [OrderBy (order_selector f1) m1]"
  obtain cb where cb: "directives (?fq1, [r1]) B = Inr (?fq1 @ cb, [r1])"
    "filter is_cursor_call cb = []" "filter is_order_call cb = []"
    using order_free_segment[OF B(2) encB, of ?fq1 "[r1]"] by blast
  let ?fq2 = "?fq1 @ cb @ [OrderBy (order_selector f2) m2]"
  obtain cc where cc: "directives (?fq2, [r1, r2]) C = Inr (?fq2 @ cc, [r1, r2])"
    "filter is_cursor_call cc = []" "filter is_order_call cc = []"
    using order_free_segment[OF C encC, of ?fq2 "[r1, r2]"] by blast
  let ?fq = "?fq2 @ cc"
  have d: "directives ([], []) qs = Inr (?fq, [r1, r2])"
    using ca(1) cb(1) cc(1) order_with_cursor[OF r1, of ca "[]" m1]
      order_with_cursor[OF r2, of "?fq1 @ cb" "[r1]" m2]
    by (simp add: qs directives_append)
  have p: "cursor_position r1 = StartAt" "cursor_position r2 = StartAt"
    using resolve_cursor_position[OF r1] resolve_cursor_position[OF r2] pos by simp_all
  have g: "group_cursors [] [r1, r2] = Inr [(StartAt, [w1, w2])]"
    using w1 w2 p by simp
  have q: "query qs = Inr (?fq @ [CursorAt StartAt [w1, w2]])"
    unfolding query_def d using g defined by (simp add: apply_cursors_def)
  have "filter is_cursor_call (?fq @ [CursorAt StartAt [w1, w2]]) = [CursorAt StartAt [w1, w2]]"
    using ca(2) cb(2) cc(2) by simp
  moreover have "filter is_order_call (?fq @ [CursorAt StartAt [w1, w2]]) =
      [OrderBy (order_selector f1) m1, OrderBy (order_selector f2) m2]"
    using ca(3) cb(3) cc(3) by simp
  ultimately show ?thesis using q by blast
qed

text \<open>
  An order directive with a raw value, a filter, an order directive whose cursor is a
  document (resolved to the field \<^verbatim>\<open>b\<close> of its data, a date) and a limit.
\<close>

theorem two_startAt_cursors_grouped_witness:
  "\<exists>q. query [Order (Field ''a'') ''asc'' (Some [startAt (Num 1)]),
              Where DocId ''>='' (Str ''a''),
              Order (Field ''b'') ''desc''
                (Some [startAt (Doc ''users'' ''42'' (Obj [(''b'', Date 5)]))]),
              Limit (Num 2)] = Inr q \<and>
       filter is_cursor_call q = [CursorAt StartAt [Num 1, Timestamp 5]] \<and>
       filter is_order_call q = [OrderBy (FieldName ''a'') ''asc'', OrderBy (FieldName ''b'') ''desc'']"
proof -
  let ?c1 = "startAt (Num 1)"
  let ?c2 = "startAt (Doc ''users'' ''42'' (Obj [(''b'', Date 5)]))"
  let ?qs = "[Order (Field ''a'') ''asc'' (Some [?c1]), Where DocId ''>='' (Str ''a''),
              Order (Field ''b'') ''desc'' (Some [?c2]), Limit (Num 2)]"
  have orders: "filter is_order ?qs =
      [Order (Field ''a'') ''asc'' (Some [?c1]), Order (Field ''b'') ''desc'' (Some [?c2])]"
    by simp
  have pos: "cursor_position ?c1 = StartAt" "cursor_position ?c2 = StartAt"
    by (simp_all add: startAt_def)
  have r1: "resolve_cursor (Field ''a'') ?c1 = Inr (Cursor ''cursor'' StartAt (Num 1))"
    by (simp add: resolve_cursor_def startAt_def)
  have r2: "resolve_cursor (Field ''b'') ?c2 = Inr (Cursor ''cursor'' StartAt (Date 5))"
    by (simp add: resolve_cursor_def startAt_def Doc_def)
  have defined: "cursor_value (Cursor ''cursor'' StartAt (Num 1)) \<noteq> Undefined"
    "cursor_value (Cursor ''cursor'' StartAt (Date 5)) \<noteq> Undefined"
    by simp_all
  have w1: "unwrapData (cursor_value (Cursor ''cursor'' StartAt (Num 1))) = Inr (Num 1)"
    and w2: "unwrapData (cursor_value (Cursor ''cursor'' StartAt (Date 5))) = Inr (Timestamp 5)"
    by (simp_all add: fromMillis_def MIN_SECONDS_def MAX_SECONDS_def)
  have enc: "\<forall>q\<in>set ?qs. encodable q"
    by simp
  show ?thesis
    using two_startAt_cursors_grouped[OF orders pos r1 r2 defined w1 w2 enc] by simp
qed

lemma where_calls_apply_cursors:
  "filter is_where_call (apply_cursors fq cs g) = filter is_where_call fq"
proof -
  have "filter is_where_call (map (\<lambda>(method, vs). CursorAt method vs) g) = []"
    by (induction g) auto
  then show ?thesis by (simp add: apply_cursors_def)
qed

text \<open>
  Claim C9. When the compilation returns, the \<^verbatim>\<open>where\<close> calls of the compiled query are,
  in order, the \<^verbatim>\<open>where\<close> directives, each with the selector of its field, its operator
  and its encoded value; the selector of the document-id placeholder is the client's
  document-id selector, which is not a field name. So every directive on the placeholder
  has its filter on the document id, with the encoded value.
\<close>

theorem where_docId_selector:
  assumes "query qs = Inr q"
  shows "list_all2 where_compiled (filter is_where qs) (filter is_where_call q) \<and>
         (\<forall>op v. Where DocId op v \<in> set qs \<longrightarrow>
            (\<exists>w. unwrapData v = Inr w \<and> WhereFilter DocumentId op w \<in> set q))"
proof -
  from assms obtain fq cursors groups where
    d: "directives ([], []) qs = Inr (fq, cursors)"
    and q: "q = apply_cursors fq cursors groups"
    by (rule query_Inr)
  from directives_extends[OF d] have
    "list_all2 where_compiled (filter is_where qs) (filter is_where_call fq)"
    by auto
  then have all: "list_all2 where_compiled (filter is_where qs) (filter is_where_call q)"
    by (simp add: q where_calls_apply_cursors)
  have "\<exists>w. unwrapData v = Inr w \<and> WhereFilter DocumentId op w \<in> set q"
    if "Where DocId op v \<in> set qs" for op v
  proof -
    from that have "Where DocId op v \<in> set (filter is_where qs)" by simp
    then obtain n where n: "n < length (filter is_where qs)" "filter is_where qs ! n = Where DocId op v"
      unfolding in_set_conv_nth by blast
    let ?c = "filter is_where_call q ! n"
    have c: "where_compiled (Where DocId op v) ?c"
      using list_all2_nthD[OF all n(1)] n(2) by simp
    have len: "n < length (filter is_where_call q)"
      using list_all2_lengthD[OF all] n(1) by simp
    then have "?c \<in> set q"
      using nth_mem[OF len] by simp
    then show ?thesis using c by (auto split: sum.splits)
  qed
  then show ?thesis using all by blast
qed

text \<open>The filter of the specification, \<^verbatim>\<open>where(docId, '>=', 'a')\<close>.\<close>

theorem where_docId_selector_witness:
  "query [Where DocId ''>='' (Str ''a'')] = Inr [WhereFilter DocumentId ''>='' (Str ''a'')] \<and>
   list_all2 where_compiled (filter is_where [Where DocId ''>='' (Str ''a'')])
     (filter is_where_call [WhereFilter DocumentId ''>='' (Str ''a'')]) \<and>
   WhereFilter DocumentId ''>='' (Str ''a'') \<in> set [WhereFilter DocumentId ''>='' (Str ''a'')]"
proof -
  have q: "query [Where DocId ''>='' (Str ''a'')] = Inr [WhereFilter DocumentId ''>='' (Str ''a'')]"
    by (simp add: query_def apply_cursors_def)
  from where_docId_selector[OF q] q show ?thesis by simp
qed

section \<open>The marshaller leaves its input alone\<close>

lemma kept_refl: "kept h h"
  by (simp add: kept_def)

lemma kept_length:
  assumes "kept h h'"
  shows "length h \<le> length h'"
proof -
  have "length (take (length h) h') = length h"
    using assms by (simp add: kept_def)
  then show ?thesis by simp
qed

lemma kept_nth: "kept h h' \<Longrightarrow> a < length h \<Longrightarrow> h' ! a = h ! a"
  by (metis kept_def nth_take)

lemma kept_iff: "kept h h' \<longleftrightarrow> length h \<le> length h' \<and> (\<forall>a<length h. h' ! a = h ! a)"
proof
  assume "kept h h'"
  then show "length h \<le> length h' \<and> (\<forall>a<length h. h' ! a = h ! a)"
    using kept_length kept_nth by blast
next
  assume r: "length h \<le> length h' \<and> (\<forall>a<length h. h' ! a = h ! a)"
  then show "kept h h'"
    unfolding kept_def by (intro nth_equalityI) simp_all
qed

lemma kept_trans: "kept h h1 \<Longrightarrow> kept h1 h2 \<Longrightarrow> kept h h2"
  unfolding kept_iff by auto

lemma kept_append: "kept h (h @ xs)"
  by (simp add: kept_def)

lemma kept_update: "kept h h' \<Longrightarrow> length h \<le> a \<Longrightarrow> kept h (h'[a := x])"
  unfolding kept_iff by auto

lemma fresh_value_mono:
  "fresh_value h1 n w \<Longrightarrow> kept h0 h1 \<Longrightarrow> n \<le> n' \<Longrightarrow> fresh_value h0 n' w"
  by (cases w) (auto simp: kept_iff)

lemma fresh_containers_iff:
  "fresh_containers h h' \<longleftrightarrow>
     (\<forall>b. length h \<le> b \<and> b < length h' \<longrightarrow> (\<forall>m\<in>set (members (h' ! b)). fresh_value h (length h') m))"
  by (auto simp: fresh_containers_def list_all_iff)

lemma members_slot_put: "members (slot_put obj i w) = (members obj)[i := w]"
  by (cases obj) (simp_all add: map_update)

lemma slot_value_members:
  "slot_value obj i = (if i < length (members obj) then members obj ! i else HUndefined)"
  by (cases obj) simp_all

lemma members_slot_add:
  "set (members (slot_add obj src i w)) \<subseteq> insert w (set (members obj))"
  by (cases obj; cases src) auto

text \<open>Allocating an object that is not a container.\<close>

lemma spares_alloc_leaf:
  assumes "kept h0 h" and "fresh_containers h0 h" and "members obj = []"
  shows "spares h0 (h @ [obj], Inr (Ptr (length h)))"
proof -
  have k: "kept h0 (h @ [obj])" using assms(1) kept_append kept_trans by blast
  have l: "length h0 \<le> length h" using assms(1) by (rule kept_length)
  have "fresh_containers h0 (h @ [obj])"
    unfolding fresh_containers_iff
  proof (intro allI impI ballI)
    fix b m assume b: "length h0 \<le> b \<and> b < length (h @ [obj])" and m: "m \<in> set (members ((h @ [obj]) ! b))"
    show "fresh_value h0 (length (h @ [obj])) m"
    proof (cases "b < length h")
      case True
      then have "m \<in> set (members (h ! b))" using m by (simp add: nth_append)
      then have "fresh_value h0 (length h) m"
        using assms(2) b True unfolding fresh_containers_iff by blast
      then show ?thesis by (rule fresh_value_mono[OF _ kept_refl]) simp
    next
      case False
      then have "b = length h" using b by simp
      then show ?thesis using m assms(3) by simp
    qed
  qed
  moreover have "fresh_value h0 (length (h @ [obj])) (Ptr (length h))"
    using l by simp
  ultimately show ?thesis using k by (simp add: spares_def)
qed

lemma spares_Inl: "kept h h' \<Longrightarrow> spares h (h', Inl e)"
  by (simp add: spares_def)

lemma spares_same: "fresh_value h (length h) v \<Longrightarrow> spares h (h, Inr v)"
  by (simp add: spares_def kept_refl fresh_containers_def)

lemma loop_ready_start:
  "loop_ready h (h @ [obj]) (length h) [0..<length (members obj)]"
  by (auto simp: loop_ready_def kept_append nth_append)

lemma loop_ready_done:
  assumes "loop_ready h0 h a []"
  shows "kept h0 h \<and> fresh_containers h0 h \<and> fresh_value h0 (length h) (Ptr a)"
proof -
  have "\<forall>m\<in>set (members (h ! a)). fresh_value h0 (length h) m"
    using assms by (auto simp: loop_ready_def in_set_conv_nth)
  moreover have "\<forall>b. length h0 \<le> b \<and> b < length h \<and> b \<noteq> a \<longrightarrow>
        (\<forall>m\<in>set (members (h ! b)). fresh_value h0 (length h) m)"
    using assms by (simp add: loop_ready_def)
  ultimately have "fresh_containers h0 h"
    unfolding fresh_containers_iff by blast
  then show ?thesis using assms by (simp add: loop_ready_def)
qed

text \<open>One round of a copying loop: the conversion of a member spares the heap, and its
  result is written to the member of the copy.\<close>

lemma loop_ready_step:
  assumes ready: "loop_ready h0 h a (i # is)"
    and child: "spares h (h1, Inr w)"
  shows "loop_ready h0 (h1[a := slot_put (h1 ! a) i w]) a is"
proof -
  let ?h2 = "h1[a := slot_put (h1 ! a) i w]"
  from ready have k0: "kept h0 h" and a: "length h0 \<le> a" "a < length h"
    and others: "\<And>b m. length h0 \<le> b \<Longrightarrow> b < length h \<Longrightarrow> b \<noteq> a \<Longrightarrow> m \<in> set (members (h ! b))
        \<Longrightarrow> fresh_value h0 (length h) m"
    and slots: "\<And>j. j < length (members (h ! a)) \<Longrightarrow> j \<notin> set (i # is)
        \<Longrightarrow> fresh_value h0 (length h) (members (h ! a) ! j)"
    unfolding loop_ready_def by blast+
  from child have k1: "kept h h1" and w: "fresh_value h (length h1) w"
    and fc: "fresh_containers h h1"
    by (simp_all add: spares_def)
  have len: "length h \<le> length h1" using k1 by (rule kept_length)
  have ha: "h1 ! a = h ! a" using k1 a(2) by (rule kept_nth)
  have k2: "kept h0 ?h2"
    using kept_update[OF kept_trans[OF k0 k1] a(1)] .
  have w0: "fresh_value h0 (length ?h2) w"
    using fresh_value_mono[OF w k0] by simp
  have o2: "fresh_value h0 (length ?h2) m"
    if b: "length h0 \<le> b" "b < length ?h2" "b \<noteq> a" and m: "m \<in> set (members (?h2 ! b))" for b m
  proof (cases "b < length h")
    case True
    then have "?h2 ! b = h ! b" using b(3) kept_nth[OF k1 True] by simp
    then have "fresh_value h0 (length h) m" using others[OF b(1) True b(3)] m by simp
    then show ?thesis using fresh_value_mono[OF _ kept_refl] len by simp
  next
    case False
    then have "length h \<le> b" "b < length h1" using b(2) by simp_all
    then have "fresh_value h (length h1) m"
      using fc[unfolded fresh_containers_iff] m b(3) by simp
    then show ?thesis using fresh_value_mono[OF _ k0] by simp
  qed
  have s2: "fresh_value h0 (length ?h2) (members (?h2 ! a) ! j)"
    if j: "j < length (members (?h2 ! a))" "j \<notin> set is" for j
  proof -
    have mem: "members (?h2 ! a) = (members (h ! a))[i := w]"
      using a(2) len by (simp add: members_slot_put ha)
    show ?thesis
    proof (cases "j = i")
      case True
      then show ?thesis using mem j(1) w0 by simp
    next
      case False
      then have "fresh_value h0 (length h) (members (h ! a) ! j)"
        using slots[of j] j mem by simp
      then show ?thesis using mem False fresh_value_mono[OF _ kept_refl] len by simp
    qed
  qed
  have a2: "a < length ?h2" using a(2) len by simp
  show ?thesis
    unfolding loop_ready_def
  proof (intro conjI allI impI ballI)
    show "kept h0 ?h2" by (rule k2)
    show "length h0 \<le> a" by (rule a(1))
    show "a < length ?h2" by (rule a2)
  next
    fix b m
    assume "length h0 \<le> b \<and> b < length ?h2 \<and> b \<noteq> a" and "m \<in> set (members (?h2 ! b))"
    then show "fresh_value h0 (length ?h2) m" using o2 by blast
  next
    fix j
    assume "j < length (members (?h2 ! a))" and "j \<notin> set is"
    then show "fresh_value h0 (length ?h2) (members (?h2 ! a) ! j)" by (rule s2)
  qed
qed

lemma loop_done_Nil: "loop_ready h0 h a [] \<Longrightarrow> loop_done h0 a (h, Inr ())"
  by (simp add: loop_done_def)

lemma loop_done_Inl: "loop_ready h0 h a is \<Longrightarrow> spares h (h1, Inl e) \<Longrightarrow> loop_done h0 a (h1, Inl e)"
  by (auto simp: loop_done_def loop_ready_def spares_def intro: kept_trans)

lemma spares_copy:
  assumes "\<And>h0. loop_ready h0 (h @ [obj]) (length h) [0..<length (members obj)]
            \<Longrightarrow> loop_done h0 (length h) loop"
  shows "spares h (case loop of (h', Inl e) \<Rightarrow> (h', Inl e) | (h', Inr u) \<Rightarrow> (h', Inr (Ptr (length h))))"
proof -
  have d: "loop_done h (length h) loop"
    using assms[OF loop_ready_start] .
  obtain h' r where l: "loop = (h', r)" by (cases loop)
  show ?thesis
  proof (cases r)
    case (Inl e)
    then show ?thesis using d l by (simp add: loop_done_def spares_def)
  next
    case (Inr u)
    then have "loop_ready h h' (length h) []" using d l by (simp add: loop_done_def)
    from loop_ready_done[OF this] show ?thesis using l Inr by (simp add: spares_def)
  qed
qed

lemma spares_leaf: "members obj = [] \<Longrightarrow> spares h (case alloc h obj of (h', v) \<Rightarrow> (h', Inr v))"
  using spares_alloc_leaf[of h h obj]
  by (simp add: alloc_def kept_refl fresh_containers_def)

lemma spares_then_leaf:
  "spares h (h1, Inr w) \<Longrightarrow> members obj = [] \<Longrightarrow>
   spares h (case alloc h1 obj of (h', v) \<Rightarrow> (h', Inr v))"
  using spares_alloc_leaf[of h h1 obj] by (simp add: alloc_def spares_def)

lemma spares_error_after: "spares h (h1, r) \<Longrightarrow> spares h (h1, Inl e)"
  by (simp add: spares_def)

lemma spares_refToFirestoreDocument: "spares h (h_refToFirestoreDocument h r)"
proof (cases "and_then (h_getRefPath h r) resource_path")
  case (Inl e)
  then show ?thesis by (simp add: h_refToFirestoreDocument_def spares_Inl kept_refl)
next
  case (Inr p)
  then show ?thesis
    using spares_leaf[of "HDocumentReference p" h] by (simp add: h_refToFirestoreDocument_def)
qed

lemma spares_spread_alloc:
  assumes "spares h (h_unwrapData n h v)" and "\<And>ws. members (mk ws) = []"
  shows "spares h (case h_unwrapData n h v of
            (h1, Inl e) \<Rightarrow> (h1, Inl e)
          | (h1, Inr w) \<Rightarrow>
              (case h_spread h1 w of
                 Inl e \<Rightarrow> (h1, Inl e)
               | Inr ws \<Rightarrow>
                   (if ws = [] then (h1, Inl ClientError)
                    else (case alloc h1 (mk ws) of (h', v) \<Rightarrow> (h', Inr v)))))"
proof -
  obtain h1 r where c: "h_unwrapData n h v = (h1, r)" by (cases "h_unwrapData n h v")
  show ?thesis
  proof (cases r)
    case (Inl e)
    then show ?thesis using assms(1) c by simp
  next
    case (Inr w)
    show ?thesis
    proof (cases "h_spread h1 w")
      case (Inl e)
      then show ?thesis using assms(1) c Inr spares_error_after[of h h1 "Inr w" e] by simp
    next
      case (Inr ws)
      show ?thesis
      proof (cases "ws = []")
        case True
        then show ?thesis
          using assms(1) c \<open>r = Inr w\<close> Inr spares_error_after[of h h1 "Inr w" ClientError]
          by simp
      next
        case False
        then show ?thesis
          using assms c \<open>r = Inr w\<close> Inr spares_then_leaf[of h h1 w "mk ws"] by simp
      qed
    qed
  qed
qed

lemma h_unwrapData_spares:
  "spares h (h_unwrapData n h v)"
  "\<And>h0. loop_ready h0 h a is \<Longrightarrow> loop_done h0 a (h_unwrapMembers n h a is)"
proof (induction n h v and n h a "is" rule: h_unwrapData_h_unwrapMembers.induct)
  case (1 h data)
  then show ?case by (simp add: spares_Inl kept_refl)
next
  case (2 n h)
  then show ?case by (simp add: spares_same)
next
  case (3 n h a)
  show ?case
  proof (cases "a < length h")
    case False
    then show ?thesis by (simp add: spares_Inl kept_refl)
  next
    case True
    show ?thesis
    proof (cases "h ! a")
      case (HObj kvs)
      have copy: "spares h (case h_unwrapMembers n (h @ [HObj kvs]) (length h) [0..<length kvs] of
            (h', Inl e) \<Rightarrow> (h', Inl e) | (h', Inr u) \<Rightarrow> (h', Inr (Ptr (length h))))"
        if "h_get_prop kvs ''type'' \<noteq> HStr ''ref''"
          and "h_get_prop kvs ''type'' = HStr ''value'' \<Longrightarrow>
               h_get_prop kvs ''kind'' \<notin> {HStr ''remove'', HStr ''increment'', HStr ''arrayUnion'',
                  HStr ''arrayRemove'', HStr ''serverDate''}"
      proof (rule spares_copy[of h "HObj kvs", simplified])
        fix h0 assume r: "loop_ready h0 (h @ [HObj kvs]) (length h) [0..<length kvs]"
        show "loop_done h0 (length h) (h_unwrapMembers n (h @ [HObj kvs]) (length h) [0..<length kvs])"
        proof (cases "h_get_prop kvs ''type'' = HStr ''value''")
          case True
          then show ?thesis using "3.IH"(3)[OF \<open>a < length h\<close> HObj _ True _ _ _ _ _ r] that by simp
        next
          case False
          then show ?thesis using "3.IH"(4)[OF \<open>a < length h\<close> HObj _ False r] that by simp
        qed
      qed
      show ?thesis
      proof (cases "h_get_prop kvs ''type'' = HStr ''ref''")
        case True
        then show ?thesis using \<open>a < length h\<close> HObj by (simp add: spares_refToFirestoreDocument)
      next
        case nref: False
        show ?thesis
        proof (cases "h_get_prop kvs ''type'' = HStr ''value''")
          case False
          then show ?thesis using \<open>a < length h\<close> HObj nref copy by simp
        next
          case val: True
          consider (remove) "h_get_prop kvs ''kind'' = HStr ''remove''"
            | (increment) "h_get_prop kvs ''kind'' = HStr ''increment''"
            | (arrayUnion) "h_get_prop kvs ''kind'' = HStr ''arrayUnion''"
            | (arrayRemove) "h_get_prop kvs ''kind'' = HStr ''arrayRemove''"
            | (serverDate) "h_get_prop kvs ''kind'' = HStr ''serverDate''"
            | (other) "h_get_prop kvs ''kind'' \<notin> {HStr ''remove'', HStr ''increment'', HStr ''arrayUnion'',
                  HStr ''arrayRemove'', HStr ''serverDate''}"
            by blast
          then show ?thesis
          proof cases
            case remove
            then show ?thesis using \<open>a < length h\<close> HObj nref val spares_leaf[of HFieldValueDelete h] by simp
          next
            case increment
            then show ?thesis
              using \<open>a < length h\<close> HObj nref val
                spares_leaf[of "HFieldValueIncrement (h_get_prop kvs ''number'')" h] by simp
          next
            case arrayUnion
            have "spares h (h_unwrapData n h (h_get_prop kvs ''values''))"
              using "3.IH"(1)[OF \<open>a < length h\<close> HObj nref val _ _ arrayUnion] arrayUnion by simp
            from spares_spread_alloc[OF this, of HFieldValueArrayUnion]
            show ?thesis using \<open>a < length h\<close> HObj nref val arrayUnion by simp
          next
            case arrayRemove
            have "spares h (h_unwrapData n h (h_get_prop kvs ''values''))"
              using "3.IH"(2)[OF \<open>a < length h\<close> HObj nref val _ _ _ arrayRemove] arrayRemove by simp
            from spares_spread_alloc[OF this, of HFieldValueArrayRemove]
            show ?thesis using \<open>a < length h\<close> HObj nref val arrayRemove by simp
          next
            case serverDate
            then show ?thesis
              using \<open>a < length h\<close> HObj nref val spares_leaf[of HFieldValueServerTimestamp h] by simp
          next
            case other
            then show ?thesis using \<open>a < length h\<close> HObj nref val copy by simp
          qed
        qed
      qed
    next
      case (HArr xs)
      have "spares h (case h_unwrapMembers n (h @ [HArr xs]) (length h) [0..<length xs] of
            (h', Inl e) \<Rightarrow> (h', Inl e) | (h', Inr u) \<Rightarrow> (h', Inr (Ptr (length h))))"
        using spares_copy[of h "HArr xs", simplified] "3.IH"(5)[OF True HArr] by blast
      then show ?thesis using True HArr by simp
    next
      case (HDate t)
      then show ?thesis
        using True spares_leaf[of "HTimestamp t" h]
        by (simp add: fromMillis_def spares_Inl kept_refl)
    qed (simp_all add: True spares_Inl kept_refl)
  qed
next
  case (5 n h a)
  then show ?case by (simp add: loop_done_Nil)
next
  case (6 n h a i "is")
  obtain h1 r where c: "h_unwrapData n h (slot_value (h ! a) i) = (h1, r)"
    by (cases "h_unwrapData n h (slot_value (h ! a) i)")
  have sp: "spares h (h1, r)" using "6.IH"(1) c by simp
  show ?case
  proof (cases r)
    case (Inl e)
    then show ?thesis using c sp loop_done_Inl[OF "6.prems"] by simp
  next
    case (Inr w)
    have "loop_ready h0 (h1[a := slot_put (h1 ! a) i w]) a is"
      using loop_ready_step[OF "6.prems"] sp Inr by simp
    from "6.IH"(2)[OF c[symmetric] Inr this] show ?thesis using c Inr by simp
  qed
qed (simp_all add: spares_same)

lemma spares_pathToRef: "spares h (h_pathToRef h p)"
proof (cases "match_path p")
  case None
  then show ?thesis by (simp add: h_pathToRef_def spares_Inl kept_refl)
next
  case (Some ci)
  obtain c i where ci: "ci = (c, i)" by (cases ci)
  let ?coll = "HObj [(''path'', HStr c)]"
  let ?ref = "HObj [(''type'', HStr ''ref''), (''collection'', Ptr (length h)), (''id'', HStr i)]"
  let ?h2 = "h @ [?coll, ?ref]"
  have res: "h_pathToRef h p = (?h2, Inr (Ptr (Suc (length h))))"
    using Some ci by (simp add: h_pathToRef_def alloc_def)
  have "fresh_containers h ?h2"
    unfolding fresh_containers_iff
  proof (intro allI impI ballI)
    fix b m
    assume b: "length h \<le> b \<and> b < length ?h2" and m: "m \<in> set (members (?h2 ! b))"
    then consider "b = length h" | "b = Suc (length h)" by fastforce
    then show "fresh_value h (length ?h2) m"
    proof cases
      case 1
      then show ?thesis using m by auto
    next
      case 2
      then show ?thesis using m by (auto simp: nth_append)
    qed
  qed
  then show ?thesis
    unfolding res by (simp add: spares_def kept_def)
qed

lemma h_wrapData_spares:
  "spares h (h_wrapData n h v)"
  "\<And>h0. loop_ready h0 h a is \<Longrightarrow> loop_done h0 a (h_wrapMembers n h a is)"
proof (induction n h v and n h a "is" rule: h_wrapData_h_wrapMembers.induct)
  case (1 h data)
  then show ?case by (simp add: spares_Inl kept_refl)
next
  case (2 n h a)
  show ?case
  proof (cases "a < length h")
    case False
    then show ?thesis by (simp add: spares_Inl kept_refl)
  next
    case True
    show ?thesis
    proof (cases "h ! a")
      case (HObj kvs)
      have "spares h (case h_wrapMembers n (h @ [HObj kvs]) (length h) [0..<length kvs] of
            (h', Inl e) \<Rightarrow> (h', Inl e) | (h', Inr u) \<Rightarrow> (h', Inr (Ptr (length h))))"
        using spares_copy[of h "HObj kvs", simplified] "2.IH"(1)[OF True HObj] by blast
      then show ?thesis using True HObj by simp
    next
      case (HArr xs)
      have "spares h (case h_wrapMembers n (h @ [HArr xs]) (length h) [0..<length xs] of
            (h', Inl e) \<Rightarrow> (h', Inl e) | (h', Inr u) \<Rightarrow> (h', Inr (Ptr (length h))))"
        using spares_copy[of h "HArr xs", simplified] "2.IH"(2)[OF True HArr] by blast
      then show ?thesis using True HArr by simp
    next
      case (HDate t)
      then show ?thesis using True spares_leaf[of "HObj []" h] by simp
    next
      case HInvalidDate
      then show ?thesis using True spares_leaf[of "HObj []" h] by simp
    next
      case (HTimestamp t)
      then show ?thesis using True spares_leaf[of "HDate t" h] by simp
    next
      case (HDocumentReference p)
      then show ?thesis using True by (simp add: spares_pathToRef)
    qed (simp_all add: True spares_Inl kept_refl)
  qed
next
  case (4 n h a)
  then show ?case by (simp add: loop_done_Nil)
next
  case (5 n h a i "is")
  obtain h1 r where c: "h_wrapData n h (slot_value (h ! a) i) = (h1, r)"
    by (cases "h_wrapData n h (slot_value (h ! a) i)")
  have sp: "spares h (h1, r)" using "5.IH"(1) c by simp
  show ?case
  proof (cases r)
    case (Inl e)
    then show ?thesis using c sp loop_done_Inl[OF "5.prems"] by simp
  next
    case (Inr w)
    have "loop_ready h0 (h1[a := slot_put (h1 ! a) i w]) a is"
      using loop_ready_step[OF "5.prems"] sp Inr by simp
    from "5.IH"(2)[OF c[symmetric] Inr this] show ?thesis using c Inr by simp
  qed
qed (simp_all add: spares_same)

lemma fill_ready_step:
  assumes ready: "fill_ready h0 h b"
    and child: "spares h (h1, Inr w)"
  shows "fill_ready h0 (h1[b := slot_add (h1 ! b) src i w]) b"
proof -
  let ?h2 = "h1[b := slot_add (h1 ! b) src i w]"
  from ready have k0: "kept h0 h" and b: "length h0 \<le> b" "b < length h"
    and fc0: "fresh_containers h0 h"
    by (simp_all add: fill_ready_def)
  from child have k1: "kept h h1" and w: "fresh_value h (length h1) w"
    and fc1: "fresh_containers h h1"
    by (simp_all add: spares_def)
  have len: "length h \<le> length h1" using k1 by (rule kept_length)
  have w0: "fresh_value h0 (length ?h2) w"
    using fresh_value_mono[OF w k0] by simp
  have old: "fresh_value h0 (length ?h2) m"
    if c: "length h0 \<le> c" "c < length h1" and m: "m \<in> set (members (h1 ! c))" for c m
  proof (cases "c < length h")
    case True
    then have "h1 ! c = h ! c" using kept_nth[OF k1] by simp
    then have "fresh_value h0 (length h) m"
      using fc0[unfolded fresh_containers_iff] c(1) True m by simp
    then show ?thesis using fresh_value_mono[OF _ kept_refl] len by simp
  next
    case False
    then have "length h \<le> c" by simp
    then have "fresh_value h (length h1) m"
      using fc1[unfolded fresh_containers_iff] c(2) m by blast
    then show ?thesis using fresh_value_mono[OF _ k0] by simp
  qed
  have "fresh_containers h0 ?h2"
    unfolding fresh_containers_iff
  proof (intro allI impI ballI)
    fix c m
    assume c: "length h0 \<le> c \<and> c < length ?h2" and m: "m \<in> set (members (?h2 ! c))"
    show "fresh_value h0 (length ?h2) m"
    proof (cases "c = b")
      case True
      then have "m \<in> insert w (set (members (h1 ! b)))"
        using m c members_slot_add[of "h1 ! b" src i w] by auto
      then show ?thesis using w0 old[of b] b len by auto
    next
      case False
      then show ?thesis using old[of c m] c m by simp
    qed
  qed
  moreover have "kept h0 ?h2"
    using kept_update[OF kept_trans[OF k0 k1] b(1)] .
  ultimately show ?thesis using b len by (simp add: fill_ready_def)
qed

lemma spares_HNull: "spares h (h, Inr HNull)"
  by (simp add: spares_same)

lemma spares_fill:
  assumes "\<And>h0. fill_ready h0 (h @ [obj]) (length h) \<Longrightarrow> fill_done h0 (length h) loop"
    and "members obj = []"
  shows "spares h (case loop of (h', Inl e) \<Rightarrow> (h', Inl e) | (h', Inr u) \<Rightarrow> (h', Inr (Ptr (length h))))"
proof -
  have "fill_ready h (h @ [obj]) (length h)"
    using assms(2) by (auto simp: fill_ready_def kept_append fresh_containers_iff nth_append)
  from assms(1)[OF this] have d: "fill_done h (length h) loop" .
  obtain h' r where l: "loop = (h', r)" by (cases loop)
  show ?thesis
  proof (cases r)
    case (Inl e)
    then show ?thesis using d l by (simp add: fill_done_def spares_def)
  next
    case (Inr u)
    then show ?thesis using d l by (simp add: fill_done_def fill_ready_def spares_def)
  qed
qed

lemma h_nullifyData_spares:
  "spares h (h_nullifyData n h v)"
  "\<And>h0. fill_ready h0 h b \<Longrightarrow> fill_done h0 b (h_nullifyMembers n h a b is)"
proof (induction n h v and n h a b "is" rule: h_nullifyData_h_nullifyMembers.induct)
  case (1 h data)
  then show ?case by (simp add: spares_Inl kept_refl)
next
  case (2 n h a)
  show ?case
  proof (cases "a < length h")
    case False
    then show ?thesis by (simp add: spares_Inl kept_refl)
  next
    case True
    show ?thesis
    proof (cases "h ! a")
      case (HObj kvs)
      have "spares h (case h_nullifyMembers n (h @ [HObj []]) a (length h) [0..<length kvs] of
            (h', Inl e) \<Rightarrow> (h', Inl e) | (h', Inr u) \<Rightarrow> (h', Inr (Ptr (length h))))"
        using spares_fill[of h "HObj []"] "2.IH"(1)[OF True HObj] by simp
      then show ?thesis using True HObj by simp
    next
      case (HArr xs)
      have "spares h (case h_nullifyMembers n (h @ [HArr []]) a (length h) [0..<length xs] of
            (h', Inl e) \<Rightarrow> (h', Inl e) | (h', Inr u) \<Rightarrow> (h', Inr (Ptr (length h))))"
        using spares_fill[of h "HArr []"] "2.IH"(2)[OF True HArr] by simp
      then show ?thesis using True HArr by simp
    next
      case (HDate t)
      then show ?thesis using True by (simp add: spares_same)
    next
      case HInvalidDate
      then show ?thesis using True by (simp add: spares_same)
    qed (simp_all add: True spares_Inl kept_refl)
  qed
next
  case (4 n h a b)
  then show ?case by (simp add: fill_done_def)
next
  case (5 n h a b i "is")
  show ?case
  proof (cases "slot_value (h ! a) i = HUndefined")
    case True
    have "fill_ready h0 (h[b := slot_add (h ! b) (h ! a) i HNull]) b"
      using fill_ready_step[OF "5.prems" spares_HNull] .
    from "5.IH"(1)[OF True this] show ?thesis using True by simp
  next
    case False
    obtain h1 r where c: "h_nullifyData n h (slot_value (h ! a) i) = (h1, r)"
      by (cases "h_nullifyData n h (slot_value (h ! a) i)")
    have sp: "spares h (h1, r)" using "5.IH"(2)[OF False] c by simp
    show ?thesis
    proof (cases r)
      case (Inl e)
      have "kept h0 h1"
        using "5.prems" sp by (auto simp: fill_ready_def spares_def intro: kept_trans)
      then show ?thesis using c Inl False by (simp add: fill_done_def)
    next
      case (Inr w)
      have "fill_ready h0 (h1[b := slot_add (h1 ! b) (h1 ! a) i w]) b"
        using fill_ready_step[OF "5.prems"] sp Inr by simp
      from "5.IH"(3)[OF False c[symmetric] Inr this] show ?thesis using c Inr False by simp
    qed
  qed
qed (simp_all add: spares_same)

lemma reaches_fresh:
  assumes "reaches h' w b" and "kept h h'" and "fresh_containers h h'"
    and "fresh_value h (length h') w" and "is_container (h' ! b)"
  shows "length h \<le> b"
  using assms
proof (induction rule: reaches.induct)
  case (here a h')
  show ?case
  proof (rule ccontr)
    assume "\<not> length h \<le> a"
    then have "a < length h" by simp
    then show False using here kept_nth[of h h' a] by simp
  qed
next
  case (member a h' m b)
  have old: "a < length h \<Longrightarrow> members (h' ! a) = []"
  proof -
    assume a: "a < length h"
    then have "\<not> is_container (h ! a)" using member.prems(3) by simp
    then have "members (h ! a) = []" by (cases "h ! a") simp_all
    then show ?thesis using kept_nth[OF member.prems(1) a] by simp
  qed
  have "length h \<le> a" using old member.hyps(2) by fastforce
  then have "fresh_value h (length h') m"
    using member.prems(2) member.hyps(1,2) unfolding fresh_containers_iff by blast
  then show ?case using member.IH member.prems by blast
qed

lemma spares_reaches:
  assumes "spares h (h', r)"
  shows "kept h h' \<and> (\<forall>w b. r = Inr w \<and> reaches h' w b \<and> is_container (h' ! b) \<longrightarrow> length h \<le> b)"
proof -
  have k: "kept h h'" using assms by (simp add: spares_def)
  have "length h \<le> b" if "r = Inr w" "reaches h' w b" "is_container (h' ! b)" for w b
    using reaches_fresh[OF that(2) k _ _ that(3)] assms that(1) by (simp add: spares_def)
  then show ?thesis using k by blast
qed

text \<open>
  Claim C10. A call of \<^verbatim>\<open>unwrapData\<close>, \<^verbatim>\<open>wrapData\<close> or \<^verbatim>\<open>nullifyData\<close>, whatever the
  heap, the argument and the room on the stack, and whether it returns or throws, ends in a
  heap that holds every object of the heap it started in, at its address, as it was; and
  every array and object that can be reached from a returned result was allocated by the
  call.
\<close>

theorem marshaller_leaves_input_unchanged:
  assumes "f = h_unwrapData \<or> f = h_wrapData \<or> f = h_nullifyData"
    and "f n h v = (h', r)"
  shows "kept h h' \<and>
         (\<forall>w b. r = Inr w \<and> reaches h' w b \<and> is_container (h' ! b) \<longrightarrow> length h \<le> b)"
proof -
  have "spares h (f n h v)"
    using assms(1) h_unwrapData_spares(1) h_wrapData_spares(1) h_nullifyData_spares(1) by blast
  then have "spares h (h', r)" using assms(2) by simp
  then show ?thesis by (rule spares_reaches)
qed

text \<open>
  On the example heap \<^verbatim>\<open>unwrapData\<close> and \<^verbatim>\<open>nullifyData\<close> of the object return a new object
  at address 3 and keep the three objects; no array or object at an address below 3 can be
  reached from the result (\<^verbatim>\<open>nullifyData\<close> shares the date, which is not a container).
\<close>

theorem marshaller_leaves_input_unchanged_witness:
  "h_unwrapData 3 example_heap (Ptr 0) =
     (example_heap @ [HObj [(''a'', HNull), (''d'', Ptr 4), (''l'', Ptr 5)], HTimestamp 7,
                      HArr [HNum 1, Ptr 6], HTimestamp 7], Inr (Ptr 3)) \<and>
   kept example_heap
     (example_heap @ [HObj [(''a'', HNull), (''d'', Ptr 4), (''l'', Ptr 5)], HTimestamp 7,
                      HArr [HNum 1, Ptr 6], HTimestamp 7]) \<and>
   \<not> (\<exists>b<3. reaches
           (example_heap @ [HObj [(''a'', HNull), (''d'', Ptr 4), (''l'', Ptr 5)], HTimestamp 7,
                            HArr [HNum 1, Ptr 6], HTimestamp 7]) (Ptr 3) b \<and>
         is_container
           ((example_heap @ [HObj [(''a'', HNull), (''d'', Ptr 4), (''l'', Ptr 5)], HTimestamp 7,
                             HArr [HNum 1, Ptr 6], HTimestamp 7]) ! b)) \<and>
   h_nullifyData 3 example_heap (Ptr 0) =
     (example_heap @ [HObj [(''a'', HNull), (''d'', Ptr 1), (''l'', Ptr 4)], HArr [HNum 1, Ptr 1]],
      Inr (Ptr 3)) \<and>
   kept example_heap
     (example_heap @ [HObj [(''a'', HNull), (''d'', Ptr 1), (''l'', Ptr 4)], HArr [HNum 1, Ptr 1]]) \<and>
   \<not> (\<exists>b<3. reaches
           (example_heap @ [HObj [(''a'', HNull), (''d'', Ptr 1), (''l'', Ptr 4)],
                            HArr [HNum 1, Ptr 1]]) (Ptr 3) b \<and>
         is_container
           ((example_heap @ [HObj [(''a'', HNull), (''d'', Ptr 1), (''l'', Ptr 4)],
                             HArr [HNum 1, Ptr 1]]) ! b))"
proof -
  let ?u = "example_heap @ [HObj [(''a'', HNull), (''d'', Ptr 4), (''l'', Ptr 5)], HTimestamp 7,
                            HArr [HNum 1, Ptr 6], HTimestamp 7]"
  let ?n = "example_heap @ [HObj [(''a'', HNull), (''d'', Ptr 1), (''l'', Ptr 4)], HArr [HNum 1, Ptr 1]]"
  have len: "length example_heap = 3" by (simp add: example_heap_def)
  have run_u: "h_unwrapData 3 example_heap (Ptr 0) = (?u, Inr (Ptr 3))"
    by code_simp
  have run_n: "h_nullifyData 3 example_heap (Ptr 0) = (?n, Inr (Ptr 3))"
    by code_simp
  have u: "kept example_heap ?u \<and>
      (\<forall>w b. Inr (Ptr 3) = Inr w \<and> reaches ?u w b \<and> is_container (?u ! b) \<longrightarrow> length example_heap \<le> b)"
    using marshaller_leaves_input_unchanged[of h_unwrapData 3 example_heap "Ptr 0" ?u "Inr (Ptr 3)"] run_u
    by blast
  have n: "kept example_heap ?n \<and>
      (\<forall>w b. Inr (Ptr 3) = Inr w \<and> reaches ?n w b \<and> is_container (?n ! b) \<longrightarrow> length example_heap \<le> b)"
    using marshaller_leaves_input_unchanged[of h_nullifyData 3 example_heap "Ptr 0" ?n "Inr (Ptr 3)"] run_n
    by blast
  have "\<not> (\<exists>b<3. reaches ?u (Ptr 3) b \<and> is_container (?u ! b))"
    using u len by auto
  moreover have "\<not> (\<exists>b<3. reaches ?n (Ptr 3) b \<and> is_container (?n ! b))"
    using n len by auto
  ultimately show ?thesis using u n run_u run_n by blast
qed

text \<open>
  The two models on the example: the object of the example heap stands for a value, and
  the result of \<^verbatim>\<open>unwrapData\<close> on the heap stands for the result of \<^verbatim>\<open>unwrapData\<close> on that
  value; the same holds for \<^verbatim>\<open>wrapData\<close> on the result.
\<close>

lemma models_agree_on_example:
  "tree_of 3 example_heap (Ptr 0) =
     Some (Obj [(''a'', Undefined), (''d'', Date 7), (''l'', Arr [Num 1, Date 7])]) \<and>
   unwrapData (Obj [(''a'', Undefined), (''d'', Date 7), (''l'', Arr [Num 1, Date 7])]) =
     Inr (Obj [(''a'', Null), (''d'', Timestamp 7), (''l'', Arr [Num 1, Timestamp 7])]) \<and>
   tree_of 3 (fst (h_unwrapData 3 example_heap (Ptr 0))) (Ptr 3) =
     Some (Obj [(''a'', Null), (''d'', Timestamp 7), (''l'', Arr [Num 1, Timestamp 7])]) \<and>
   wrapData (Obj [(''a'', Null), (''d'', Timestamp 7), (''l'', Arr [Num 1, Timestamp 7])]) =
     Inr (Obj [(''a'', Null), (''d'', Date 7), (''l'', Arr [Num 1, Date 7])]) \<and>
   (case h_wrapData 3 (fst (h_unwrapData 3 example_heap (Ptr 0))) (Ptr 3) of
      (h', r) \<Rightarrow> and_then r (\<lambda>w. case tree_of 3 h' w of Some x \<Rightarrow> Inr x | None \<Rightarrow> Inl Unmodelled)) =
     Inr (Obj [(''a'', Null), (''d'', Date 7), (''l'', Arr [Num 1, Date 7])])"
  by code_simp

end
